theory Spec2Isabelle
  imports Complex_Main
begin

section \<open>Values, series and errors\<close>

text \<open>
  The estimator of \<^verbatim>\<open>src/src/restimator.py\<close> computes on numpy float arrays and pandas
  Series. A float is modelled in exact arithmetic as \<open>real option\<close>: \<open>Some x\<close> is the
  finite value \<open>x\<close>, and \<open>None\<close> is a value that is not a finite real (numpy's \<open>nan\<close>, and
  the \<open>inf\<close> of a division of a non-zero number by zero or of \<open>log 0\<close>). Rounding error,
  overflow and underflow of the 64-bit format are not modelled. A Series is the list of
  its values in index order; index labels are assumed distinct, so selection by label is
  selection by position.

  The exceptions Python can raise in the modelled functions are values of \<open>error\<close>.
\<close>

datatype error = ValueError | IndexError

type_synonym npfloat = "real option"

section \<open>prepare\_cases\<close>

text \<open>
  \<^verbatim>\<open>idx_start = 22\<close> is a module-level constant.
\<close>

definition idx_start :: nat where
  "idx_start = 22"

text \<open>
  \<^verbatim>\<open>cases.diff()\<close>: the first entry has no predecessor and is \<open>nan\<close>; entry \<open>i + 1\<close> is
  \<open>cases[i + 1] - cases[i]\<close>.
\<close>

definition diff :: "int list \<Rightarrow> npfloat list" where
  "diff cases =
     (case cases of
        [] \<Rightarrow> []
      | _ # rest \<Rightarrow> None # map2 (\<lambda>prev cur. Some (real_of_int (cur - prev))) cases rest)"

text \<open>
  \<^verbatim>\<open>Series.any()\<close> skips \<open>nan\<close> and answers whether some remaining entry is non-zero. The
  answer is a Boolean.
\<close>

definition series_any :: "npfloat list \<Rightarrow> bool" where
  "series_any xs = list_ex (\<lambda>x. case x of None \<Rightarrow> False | Some v \<Rightarrow> v \<noteq> 0) xs"

text \<open>
  \<^verbatim>\<open>rolling(7, min_periods=1, center=False).mean()\<close>: the trailing window ending at position
  \<open>i\<close> holds at most \<open>win\<close> entries; its mean is taken over the entries that are not \<open>nan\<close>,
  and is \<open>nan\<close> when there are fewer than one of them.
\<close>

definition window_mean :: "npfloat list \<Rightarrow> npfloat" where
  "window_mean w =
     (let obs = List.map_filter (\<lambda>x. x) w
      in if length obs < 1 then None else Some (sum_list obs / real (length obs)))"

definition rolling_mean :: "nat \<Rightarrow> npfloat list \<Rightarrow> npfloat list" where
  "rolling_mean win xs =
     map (\<lambda>i. window_mean (drop (Suc i - win) (take (Suc i) xs))) [0..<length xs]"

text \<open>\<^verbatim>\<open>round()\<close> of numpy rounds to the nearest integer, a half to the even neighbour.\<close>

definition np_round :: "real \<Rightarrow> real" where
  "np_round x =
     (let f = \<lfloor>x\<rfloor>; d = x - of_int f
      in of_int (if d < 1 / 2 then f else if 1 / 2 < d then f + 1
                 else if even f then f else f + 1))"

text \<open>
  \<^verbatim>\<open>prepare_cases(cases, cutoff=25)\<close>. The guard compares the Boolean \<^verbatim>\<open>new_cases.any()\<close>
  with \<open>0\<close>, as Python does: \<open>False\<close> is \<open>0\<close> and \<open>True\<close> is \<open>1\<close>. The parameter \<open>cutoff\<close> is
  not used by the body.
\<close>

definition prepare_cases :: "int list \<Rightarrow> nat \<Rightarrow> error + (npfloat list \<times> npfloat list)" where
  "prepare_cases cases cutoff =
     (let new_cases = diff cases
      in if of_bool (series_any new_cases) < (0::int) then Inl ValueError
         else
           let smoothed = map (map_option np_round) (rolling_mean 7 new_cases);
               smoothed' = drop idx_start smoothed;
               original = drop idx_start new_cases
           in Inr (original, smoothed'))"

section \<open>Arithmetic on floats\<close>

text \<open>
  The numpy operations the estimator uses, on \<open>npfloat\<close>. An operand that is not finite
  gives a result that is not finite; so do a division by zero and the logarithm of a
  number that is not positive. A comparison with \<open>nan\<close> is false.
\<close>

definition np_add :: "npfloat \<Rightarrow> npfloat \<Rightarrow> npfloat" where
  "np_add a b = (case (a, b) of (Some x, Some y) \<Rightarrow> Some (x + y) | _ \<Rightarrow> None)"

definition np_sub :: "npfloat \<Rightarrow> npfloat \<Rightarrow> npfloat" where
  "np_sub a b = (case (a, b) of (Some x, Some y) \<Rightarrow> Some (x - y) | _ \<Rightarrow> None)"

definition np_mul :: "npfloat \<Rightarrow> npfloat \<Rightarrow> npfloat" where
  "np_mul a b = (case (a, b) of (Some x, Some y) \<Rightarrow> Some (x * y) | _ \<Rightarrow> None)"

definition np_div :: "npfloat \<Rightarrow> npfloat \<Rightarrow> npfloat" where
  "np_div a b =
     (case (a, b) of (Some x, Some y) \<Rightarrow> if y = 0 then None else Some (x / y) | _ \<Rightarrow> None)"

definition np_exp :: "npfloat \<Rightarrow> npfloat" where
  "np_exp a = map_option exp a"

definition np_log :: "npfloat \<Rightarrow> npfloat" where
  "np_log a = (case a of Some x \<Rightarrow> if 0 < x then Some (ln x) else None | None \<Rightarrow> None)"

definition np_gt :: "npfloat \<Rightarrow> real \<Rightarrow> bool" where
  "np_gt a p = (case a of Some x \<Rightarrow> p < x | None \<Rightarrow> False)"

primrec np_sum :: "npfloat list \<Rightarrow> npfloat" where
  "np_sum [] = Some 0"
| "np_sum (x # xs) = np_add x (np_sum xs)"

primrec cumsum_from :: "npfloat \<Rightarrow> npfloat list \<Rightarrow> npfloat list" where
  "cumsum_from acc [] = []"
| "cumsum_from acc (x # xs) = np_add acc x # cumsum_from (np_add acc x) xs"

definition np_cumsum :: "npfloat list \<Rightarrow> npfloat list" where
  "np_cumsum xs = cumsum_from (Some 0) xs"

section \<open>highest\_density\_interval\<close>

text \<open>
  \<^verbatim>\<open>total_p = cumsum - cumsum[:, None]\<close>: the entry in row \<open>low\<close> and column \<open>high\<close> is
  \<open>cumsum[high] - cumsum[low]\<close>.
\<close>

definition total_p :: "npfloat list \<Rightarrow> nat \<Rightarrow> nat \<Rightarrow> npfloat" where
  "total_p cumsum low high = np_sub (cumsum ! high) (cumsum ! low)"

text \<open>
  \<^verbatim>\<open>(total_p > p).nonzero()\<close>: the index pairs \<open>(low, high)\<close> of the entries above \<open>p\<close>, in
  row-major order. Every pair of indices is a candidate, also one with \<open>high < low\<close>.
\<close>

definition nonzero_gt :: "npfloat list \<Rightarrow> real \<Rightarrow> (nat \<times> nat) list" where
  "nonzero_gt cumsum p =
     filter (\<lambda>(low, high). np_gt (total_p cumsum low high) p)
       (List.product [0..<length cumsum] [0..<length cumsum])"

text \<open>
  \<^verbatim>\<open>argmin()\<close>: the position of the first least entry. On an empty array numpy raises
  \<^verbatim>\<open>ValueError\<close>.
\<close>

fun argmin_ne :: "int \<Rightarrow> int list \<Rightarrow> nat" where
  "argmin_ne x [] = 0"
| "argmin_ne x (y # ys) =
     (let k = argmin_ne y ys in if x \<le> (y # ys) ! k then 0 else Suc k)"

definition argmin :: "int list \<Rightarrow> error + nat" where
  "argmin xs = (case xs of [] \<Rightarrow> Inl ValueError | x # rest \<Rightarrow> Inr (argmin_ne x rest))"

text \<open>
  \<^verbatim>\<open>highest_density_interval(pmf, p)\<close> on one Series: \<open>pmf\<close> is the list of its
  (index label, value) pairs. The differences \<^verbatim>\<open>highs - lows\<close> are signed integers.
\<close>

definition highest_density_interval :: "('a \<times> npfloat) list \<Rightarrow> real \<Rightarrow> error + ('a \<times> 'a)" where
  "highest_density_interval pmf p =
     (let cumsum = np_cumsum (map snd pmf);
          pairs = nonzero_gt cumsum p
      in case argmin (map (\<lambda>(low, high). int high - int low) pairs) of
           Inl e \<Rightarrow> Inl e
         | Inr best \<Rightarrow>
             Inr (fst (pmf ! fst (pairs ! best)), fst (pmf ! snd (pairs ! best))))"

section \<open>get\_posteriors\<close>

text \<open>
  The probability functions of scipy, by their mathematical definitions.
  \<^verbatim>\<open>poisson.pmf(k, mu)\<close> is \<open>nan\<close> for a negative rate, zero for a count outside the support
  (negative or not an integer) and \<open>mu ^ k * exp (- mu) / k!\<close> otherwise; for the rate 0
  this is 1 at the count 0 and 0 at every other count.
  \<^verbatim>\<open>norm(loc, scale).pdf(x)\<close> is \<open>nan\<close> unless the scale is positive.
\<close>

definition poisson_pmf :: "npfloat \<Rightarrow> npfloat \<Rightarrow> npfloat" where
  "poisson_pmf k mu =
     (case (k, mu) of
        (Some c, Some m) \<Rightarrow>
          if m < 0 then None
          else if c < 0 \<or> of_int \<lfloor>c\<rfloor> \<noteq> c then Some 0
          else Some (m ^ nat \<lfloor>c\<rfloor> * exp (- m) / fact (nat \<lfloor>c\<rfloor>))
      | _ \<Rightarrow> None)"

definition norm_pdf :: "real \<Rightarrow> real \<Rightarrow> real \<Rightarrow> npfloat" where
  "norm_pdf loc scale x =
     (if 0 < scale then Some (exp (- ((x - loc) / scale)\<^sup>2 / 2) / (scale * sqrt (2 * pi)))
      else None)"

text \<open>
  \<^verbatim>\<open>gamma = 1/np.random.normal(4, 0.2, len(r_t_range))\<close>. The random generator is the
  parameter \<open>rng\<close>: \<open>rng i\<close> is the \<open>i\<close>-th sample of the one call, so the vector has one
  entry per grid point by construction. The reciprocal of a sample that is exactly zero is
  not finite, and is carried as such through the rate and the likelihood.
\<close>

definition gamma_of :: "(nat \<Rightarrow> real) \<Rightarrow> real list \<Rightarrow> npfloat list" where
  "gamma_of rng r_t_range = map (\<lambda>i. np_div (Some 1) (Some (rng i))) [0..<length r_t_range]"

text \<open>
  \<^verbatim>\<open>lam = sr[:-1] * np.exp(gamma[:, None] * (r_t_range[:, None] - 1))\<close>: entry \<open>(i, t)\<close>, for
  grid point \<open>i\<close> and day transition \<open>t\<close>.
\<close>

definition lam :: "(nat \<Rightarrow> real) \<Rightarrow> real list \<Rightarrow> npfloat list \<Rightarrow> nat \<Rightarrow> nat \<Rightarrow> npfloat" where
  "lam rng r_t_range sr i t =
     np_mul (butlast sr ! t)
       (np_exp (np_mul (gamma_of rng r_t_range ! i) (Some (r_t_range ! i - 1))))"

text \<open>
  \<^verbatim>\<open>likelihoods\<close>, as the list of its columns: column \<open>t\<close> belongs to the day \<open>date[t + 1]\<close> and
  holds \<^verbatim>\<open>poisson.pmf(sr[t + 1], lam[i, t])\<close> for every grid point \<open>i\<close>.
\<close>

definition likelihoods :: "(nat \<Rightarrow> real) \<Rightarrow> real list \<Rightarrow> npfloat list \<Rightarrow> npfloat list list" where
  "likelihoods rng r_t_range sr =
     map (\<lambda>t. map (\<lambda>i. poisson_pmf (tl sr ! t) (lam rng r_t_range sr i t))
                [0..<length r_t_range])
       [0..<length (tl sr)]"

text \<open>
  The process matrix as the list of its rows. Entry \<open>(i, j)\<close> of
  \<^verbatim>\<open>sps.norm(loc=r_t_range, scale=sigma).pdf(r_t_range[:, None])\<close> is the density with
  location \<open>r_t_range[j]\<close> at \<open>r_t_range[i]\<close>; \<^verbatim>\<open>sum(axis=0)\<close> is the vector of the column
  sums, and the division divides entry \<open>(i, j)\<close> by the sum of column \<open>j\<close>.
\<close>

definition process_raw :: "real list \<Rightarrow> real \<Rightarrow> npfloat list list" where
  "process_raw r_t_range sigma =
     map (\<lambda>x. map (\<lambda>loc. norm_pdf loc sigma x) r_t_range) r_t_range"

definition column :: "npfloat list list \<Rightarrow> nat \<Rightarrow> npfloat list" where
  "column m j = map (\<lambda>row. row ! j) m"

definition sum_axis0 :: "nat \<Rightarrow> npfloat list list \<Rightarrow> npfloat list" where
  "sum_axis0 n m = map (\<lambda>j. np_sum (column m j)) [0..<n]"

definition process_matrix :: "real list \<Rightarrow> real \<Rightarrow> npfloat list list" where
  "process_matrix r_t_range sigma =
     (let raw = process_raw r_t_range sigma;
          totals = sum_axis0 (length r_t_range) raw
      in map (\<lambda>row. map2 np_div row totals) raw)"

definition matvec :: "npfloat list list \<Rightarrow> npfloat list \<Rightarrow> npfloat list" where
  "matvec m v = map (\<lambda>row. np_sum (map2 np_mul row v)) m"

text \<open>
  \<^verbatim>\<open>prior0 = np.ones_like(r_t_range)/len(r_t_range); prior0 /= prior0.sum()\<close>.
\<close>

definition prior0 :: "real list \<Rightarrow> npfloat list" where
  "prior0 r_t_range =
     (let p0 = map (\<lambda>_. np_div (Some 1) (Some (real (length r_t_range)))) r_t_range
      in map (\<lambda>x. np_div x (np_sum p0)) p0)"

text \<open>
  One pass of the loop body: from the posterior of the previous day and the likelihood
  column of the current day to the posterior of the current day and the denominator.
\<close>

definition bayes_step :: "npfloat list list \<Rightarrow> npfloat list \<Rightarrow> npfloat list \<Rightarrow> npfloat list \<times> npfloat" where
  "bayes_step pm likelihood previous =
     (let current_prior = matvec pm previous;
          numerator = map2 np_mul likelihood current_prior;
          denominator = np_sum numerator
      in (map (\<lambda>x. np_div x denominator) numerator, denominator))"

text \<open>
  The loop over the day pairs, as a recursion over the likelihood columns that are left.
  It carries the posterior written last and the running log-likelihood, and returns the
  posteriors of the remaining days and the final log-likelihood.
\<close>

fun bayes_loop :: "npfloat list list \<Rightarrow> npfloat list list \<Rightarrow> npfloat list \<Rightarrow> npfloat \<Rightarrow> npfloat list list \<times> npfloat" where
  "bayes_loop pm [] previous log_likelihood = ([], log_likelihood)"
| "bayes_loop pm (likelihood # rest) previous log_likelihood =
     (let (posterior, denominator) = bayes_step pm likelihood previous;
          (later, final) = bayes_loop pm rest posterior (np_add log_likelihood (np_log denominator))
      in (posterior # later, final))"

text \<open>The denominators the loop computes, one per day pair, in date order.\<close>

fun denominators :: "npfloat list list \<Rightarrow> npfloat list list \<Rightarrow> npfloat list \<Rightarrow> npfloat list" where
  "denominators pm [] previous = []"
| "denominators pm (likelihood # rest) previous =
     (let (posterior, denominator) = bayes_step pm likelihood previous
      in denominator # denominators pm rest posterior)"

text \<open>
  \<^verbatim>\<open>get_posteriors(sr, date, sigma)\<close>. The grid \<^verbatim>\<open>r_t_range\<close> is a global of the module and
  a parameter here. Building the likelihood frame raises \<^verbatim>\<open>ValueError\<close> when the number
  of its columns differs from the length of \<^verbatim>\<open>date[1:]\<close>, and \<^verbatim>\<open>date[0]\<close> raises
  \<^verbatim>\<open>IndexError\<close> on an empty index. The dates are assumed distinct, so that the column
  read for \<^verbatim>\<open>previous_day\<close> is the one written in the pass before (the prior in the first
  pass). The posterior table is the list of its (date, column) pairs.
\<close>

definition get_posteriors ::
  "real list \<Rightarrow> (nat \<Rightarrow> real) \<Rightarrow> npfloat list \<Rightarrow> 'd list \<Rightarrow> real \<Rightarrow> error + (('d \<times> npfloat list) list \<times> npfloat)" where
  "get_posteriors r_t_range rng sr date sigma =
     (if length (tl sr) \<noteq> length (tl date) then Inl ValueError
      else if date = [] then Inl IndexError
      else
        let pm = process_matrix r_t_range sigma;
            (later, log_likelihood) =
               bayes_loop pm (likelihoods rng r_t_range sr) (prior0 r_t_range) (Some 0)
        in Inr (zip date (prior0 r_t_range # later), log_likelihood))"

text \<open>The denominators of a run of \<open>get_posteriors\<close>.\<close>

definition run_denominators :: "real list \<Rightarrow> (nat \<Rightarrow> real) \<Rightarrow> npfloat list \<Rightarrow> real \<Rightarrow> npfloat list" where
  "run_denominators r_t_range rng sr sigma =
     denominators (process_matrix r_t_range sigma) (likelihoods rng r_t_range sr)
       (prior0 r_t_range)"

section \<open>Probability mass functions\<close>

text \<open>
  A column of the posterior table is a PMF when every entry is a finite non-negative
  number and the entries sum to 1.
\<close>

definition is_pmf :: "npfloat list \<Rightarrow> bool" where
  "is_pmf col =
     (list_all (\<lambda>x. case x of None \<Rightarrow> False | Some v \<Rightarrow> 0 \<le> v) col \<and> np_sum col = Some 1)"

section \<open>Orders used in the proofs\<close>

text \<open>Row-major order on index pairs: the order in which \<^verbatim>\<open>nonzero()\<close> lists them.\<close>

definition row_major :: "nat \<times> nat \<Rightarrow> nat \<times> nat \<Rightarrow> bool" where
  "row_major a b = (fst a < fst b \<or> (fst a = fst b \<and> snd a < snd b))"

section \<open>Properties of prepare\_cases\<close>

lemma prepare_cases_total:
  "prepare_cases cases cutoff =
     Inr (drop idx_start (diff cases),
          drop idx_start (map (map_option np_round) (rolling_mean 7 (diff cases))))"
  by (simp add: prepare_cases_def Let_def)

text \<open>
  Claim C1. A cumulative series with a negative first difference is to be rejected with an
  error before any smoothing. The guard of \<open>prepare_cases\<close> compares a Boolean with zero
  and is never true: on the series that stays at 10 for 23 days and then drops to 7, the
  last first difference is \<open>-3\<close>, and \<open>prepare_cases\<close> returns the trimmed increments and
  their smoothed values instead of an error.
\<close>

theorem prepare_cases_accepts_decrease:
  "prepare_cases (replicate 23 10 @ [7]) 25 = Inr ([Some 0, Some (- 3)], [Some 0, Some 0])"
  by (simp add: prepare_cases_def diff_def series_any_def rolling_mean_def window_mean_def
      np_round_def idx_start_def List.map_filter_simps numeral_eq_Suc upt_rec)

section \<open>Properties of highest\_density\_interval\<close>

subsection \<open>The first least entry\<close>

lemma argmin_ne_bound: "argmin_ne x ys < Suc (length ys)"
  by (induction x ys rule: argmin_ne.induct) (auto simp: Let_def)

lemma argmin_ne_least: "j < Suc (length ys) \<Longrightarrow> (x # ys) ! argmin_ne x ys \<le> (x # ys) ! j"
proof (induction x ys arbitrary: j rule: argmin_ne.induct)
  case (1 x)
  then show ?case by simp
next
  case (2 x y ys)
  show ?case
  proof (cases j)
    case 0
    then show ?thesis by (simp add: Let_def)
  next
    case (Suc j')
    with "2.prems" have "j' < Suc (length ys)" by simp
    from "2.IH"[OF this] Suc show ?thesis by (auto simp: Let_def)
  qed
qed

lemma argmin_ne_first: "j < argmin_ne x ys \<Longrightarrow> (x # ys) ! argmin_ne x ys < (x # ys) ! j"
proof (induction x ys arbitrary: j rule: argmin_ne.induct)
  case (1 x)
  then show ?case by simp
next
  case (2 x y ys)
  show ?case
  proof (cases j)
    case 0
    with "2.prems" show ?thesis by (auto simp: Let_def split: if_splits)
  next
    case (Suc j')
    with "2.prems" have "j' < argmin_ne y ys" by (auto simp: Let_def split: if_splits)
    from "2.IH"[OF this] Suc "2.prems" show ?thesis by (auto simp: Let_def split: if_splits)
  qed
qed

lemma argmin_Inl: "argmin xs = Inl e \<longleftrightarrow> xs = [] \<and> e = ValueError"
  by (auto simp: argmin_def split: list.splits)

lemma argmin_Inr:
  assumes "xs \<noteq> []"
  shows "\<exists>k. argmin xs = Inr k \<and> k < length xs \<and>
           (\<forall>j<length xs. xs ! k \<le> xs ! j) \<and> (\<forall>j<k. xs ! k < xs ! j)"
proof -
  from assms obtain x ys where xs: "xs = x # ys" by (cases xs) auto
  have "argmin xs = Inr (argmin_ne x ys)" by (simp add: argmin_def xs)
  moreover have "argmin_ne x ys < length xs" using argmin_ne_bound[of x ys] by (simp add: xs)
  moreover have "\<forall>j<length xs. xs ! argmin_ne x ys \<le> xs ! j"
    using argmin_ne_least[of _ ys x] by (simp add: xs)
  moreover have "\<forall>j<argmin_ne x ys. xs ! argmin_ne x ys < xs ! j"
    using argmin_ne_first[of _ x ys] by (simp add: xs)
  ultimately show ?thesis by blast
qed

lemma set_nonzero_gt:
  "set (nonzero_gt cs p) = {(i, j). i < length cs \<and> j < length cs \<and> np_gt (total_p cs i j) p}"
  by (auto simp: nonzero_gt_def)

lemma sorted_wrt_product:
  "sorted_wrt (<) xs \<Longrightarrow> sorted_wrt (<) ys \<Longrightarrow> sorted_wrt row_major (List.product xs ys)"
proof (induction xs)
  case Nil
  then show ?case by simp
next
  case (Cons x xs)
  have "sorted_wrt row_major (map (Pair x) ys)"
    using Cons.prems(2) by (simp add: sorted_wrt_map row_major_def)
  moreover have "sorted_wrt row_major (List.product xs ys)"
    using Cons by simp
  moreover have "\<forall>a\<in>set (map (Pair x) ys). \<forall>b\<in>set (List.product xs ys). row_major a b"
    using Cons.prems(1) by (auto simp: row_major_def)
  ultimately show ?case by (simp add: sorted_wrt_append)
qed

lemma sorted_nonzero_gt: "sorted_wrt row_major (nonzero_gt cs p)"
  unfolding nonzero_gt_def
  by (intro sorted_wrt_filter sorted_wrt_product) (simp_all add: sorted_wrt_upt)

lemma hdi_Inl:
  "highest_density_interval pmf p = Inl e \<longleftrightarrow>
     nonzero_gt (np_cumsum (map snd pmf)) p = [] \<and> e = ValueError"
  by (auto simp: highest_density_interval_def Let_def argmin_def split: sum.splits list.splits)

lemma hdi_select:
  assumes ne: "nonzero_gt (np_cumsum (map snd pmf)) p \<noteq> []"
  shows "\<exists>lo hi.
    highest_density_interval pmf p = Inr (fst (pmf ! lo), fst (pmf ! hi)) \<and>
    (lo, hi) \<in> set (nonzero_gt (np_cumsum (map snd pmf)) p) \<and>
    (\<forall>i j. (i, j) \<in> set (nonzero_gt (np_cumsum (map snd pmf)) p) \<longrightarrow>
       int hi - int lo \<le> int j - int i \<and> (int j - int i = int hi - int lo \<longrightarrow> lo \<le> i))"
proof -
  define pairs where "pairs = nonzero_gt (np_cumsum (map snd pmf)) p"
  define ws where "ws = map (\<lambda>(low, high). int high - int low) pairs"
  have "ws \<noteq> []" using ne by (simp add: ws_def pairs_def)
  from argmin_Inr[OF this] obtain k where k: "argmin ws = Inr k" "k < length ws"
    and least: "\<And>j. j < length ws \<Longrightarrow> ws ! k \<le> ws ! j"
    and first: "\<And>j. j < k \<Longrightarrow> ws ! k < ws ! j"
    by blast
  have len: "length ws = length pairs" by (simp add: ws_def)
  have wsn: "\<And>m. m < length pairs \<Longrightarrow> ws ! m = int (snd (pairs ! m)) - int (fst (pairs ! m))"
    by (simp add: ws_def case_prod_beta)
  obtain lo hi where lohi: "pairs ! k = (lo, hi)" by (cases "pairs ! k")
  have srt: "sorted_wrt row_major pairs" unfolding pairs_def by (rule sorted_nonzero_gt)
  have res: "highest_density_interval pmf p = Inr (fst (pmf ! lo), fst (pmf ! hi))"
    using k(1) lohi by (simp add: highest_density_interval_def Let_def ws_def pairs_def)
  have sel: "(lo, hi) \<in> set pairs"
    using k(2) len lohi nth_mem[of k pairs] by simp
  have sel_min: "int hi - int lo \<le> int j - int i \<and> (int j - int i = int hi - int lo \<longrightarrow> lo \<le> i)"
    if "(i, j) \<in> set pairs" for i j
  proof -
    from that obtain m where m: "m < length pairs" "pairs ! m = (i, j)"
      by (auto simp: in_set_conv_nth)
    from least[of m] m k(2) len wsn[of m] wsn[of k] lohi
    have w: "int hi - int lo \<le> int j - int i" by simp
    have "lo \<le> i" if eq: "int j - int i = int hi - int lo"
    proof -
      have "\<not> m < k"
      proof
        assume "m < k"
        from first[OF this] m k(2) len wsn[of m] wsn[of k] lohi eq show False by simp
      qed
      then consider "m = k" | "k < m" by linarith
      then show "lo \<le> i"
      proof cases
        case 1
        with m lohi show ?thesis by simp
      next
        case 2
        with srt m(1) have "row_major (pairs ! k) (pairs ! m)"
          by (simp add: sorted_wrt_iff_nth_less)
        with m lohi show ?thesis by (auto simp: row_major_def)
      qed
    qed
    with w show ?thesis by blast
  qed
  from res sel sel_min show ?thesis unfolding pairs_def by blast
qed

subsection \<open>Cumulative sums\<close>

lemma length_cumsum_from: "length (cumsum_from acc xs) = length xs"
  by (induction xs arbitrary: acc) auto

lemma length_np_cumsum: "length (np_cumsum xs) = length xs"
  by (simp add: np_cumsum_def length_cumsum_from)

lemma cumsum_from_Some:
  "j < length vs \<Longrightarrow> cumsum_from (Some a) (map Some vs) ! j = Some (a + sum_list (take (Suc j) vs))"
proof (induction vs arbitrary: a j)
  case Nil
  then show ?case by simp
next
  case (Cons v vs)
  show ?case
  proof (cases j)
    case 0
    then show ?thesis by (simp add: np_add_def)
  next
    case (Suc j')
    with Cons.prems have "j' < length vs" by simp
    from Cons.IH[OF this, of "a + v"] Suc show ?thesis by (simp add: np_add_def add.assoc)
  qed
qed

lemma np_cumsum_Some:
  "j < length vs \<Longrightarrow> np_cumsum (map Some vs) ! j = Some (sum_list (take (Suc j) vs))"
  by (simp add: np_cumsum_def cumsum_from_Some)

lemma sum_list_take_mono:
  fixes vs :: "real list"
  assumes "\<forall>v\<in>set vs. 0 \<le> v" "i \<le> j"
  shows "sum_list (take i vs) \<le> sum_list (take j vs)"
proof -
  have "take j vs = take i vs @ take (j - i) (drop i vs)"
    using assms(2) by (metis le_add_diff_inverse take_add)
  moreover have "0 \<le> sum_list (take (j - i) (drop i vs))"
    using assms(1) by (intro sum_list_nonneg) (auto dest!: in_set_takeD in_set_dropD)
  ultimately show ?thesis by simp
qed

lemma point_mass_prefix:
  assumes "j < n"
  shows "sum_list (take (Suc j) (map (\<lambda>i. if i = k then 1 else 0) [0..<n])) = (if k \<le> j then 1 else (0::real))"
proof -
  have "take (Suc j) (map (\<lambda>i. if i = k then 1 else (0::real)) [0..<n])
      = map (\<lambda>i. if i = k then 1 else 0) [0..<Suc j]"
    using assms by (simp add: take_map take_upt del: upt_Suc)
  moreover have "sum_list (map (\<lambda>i. if i = k then 1 else (0::real)) [0..<Suc j])
      = (\<Sum>i\<in>{0..<Suc j}. if i = k then 1 else 0)"
    by (simp add: interv_sum_list_conv_sum_set_nat del: upt_Suc)
  moreover have "(\<Sum>i\<in>{0..<Suc j}. if i = k then 1 else (0::real)) = (if k \<le> j then 1 else 0)"
    by (simp add: sum.delta del: sum.op_ivl_Suc)
  ultimately show ?thesis by simp
qed

lemmas hdi_eval = highest_density_interval_def nonzero_gt_def total_p_def np_cumsum_def
  np_add_def np_sub_def np_gt_def argmin_def Let_def

subsection \<open>The selected interval\<close>

text \<open>
  Claim C4. For a PMF (its values are the non-negative reals \<open>vs\<close>) and a coverage \<open>p \<ge> 0\<close> for which some index
  pair \<open>i0 \<le> j0\<close> has span mass \<open>cumsum[j0] - cumsum[i0] > p\<close>, the function returns the
  index labels at a pair \<open>lo \<le> hi\<close> whose span mass exceeds \<open>p\<close>, whose width \<open>hi - lo\<close>
  is least among all such pairs, and which comes first in row-major order among the pairs
  of that width (a pair of the same width has a low index at least \<open>lo\<close>).
\<close>

theorem hdi_narrowest_span:
  assumes vs: "map snd pmf = map Some vs" and nonneg: "\<forall>v\<in>set vs. 0 \<le> v"
    and p: "0 \<le> p"
    and q: "i0 \<le> j0" "j0 < length pmf" "np_gt (total_p (np_cumsum (map snd pmf)) i0 j0) p"
  shows "\<exists>lo hi. highest_density_interval pmf p = Inr (fst (pmf ! lo), fst (pmf ! hi)) \<and>
           lo \<le> hi \<and> hi < length pmf \<and> np_gt (total_p (np_cumsum (map snd pmf)) lo hi) p \<and>
           (\<forall>i j. i \<le> j \<and> j < length pmf \<and> np_gt (total_p (np_cumsum (map snd pmf)) i j) p \<longrightarrow>
                 hi - lo \<le> j - i \<and> (j - i = hi - lo \<longrightarrow> lo \<le> i))"
proof -
  define cs where "cs = np_cumsum (map snd pmf)"
  have len: "length cs = length pmf" by (simp add: cs_def length_np_cumsum)
  have lvs: "length vs = length pmf" using vs by (metis length_map)
  have csn: "\<And>j. j < length pmf \<Longrightarrow> cs ! j = Some (sum_list (take (Suc j) vs))"
    by (simp add: cs_def vs np_cumsum_Some lvs)
  have fwd: "i < j" if "(i, j) \<in> set (nonzero_gt cs p)" for i j
  proof (rule ccontr)
    assume "\<not> i < j"
    then have "sum_list (take (Suc j) vs) \<le> sum_list (take (Suc i) vs)"
      using nonneg by (intro sum_list_take_mono) auto
    moreover from that have "i < length pmf" "j < length pmf" "np_gt (total_p cs i j) p"
      by (auto simp: set_nonzero_gt len)
    ultimately show False using p by (simp add: total_p_def csn np_sub_def np_gt_def)
  qed
  have mem: "(i, j) \<in> set (nonzero_gt cs p)"
    if "i \<le> j" "j < length pmf" "np_gt (total_p cs i j) p" for i j
    using that by (simp add: set_nonzero_gt len)
  from mem[OF q[folded cs_def]] have "nonzero_gt cs p \<noteq> []" by auto
  from hdi_select[OF this[unfolded cs_def]] obtain lo hi where
    res: "highest_density_interval pmf p = Inr (fst (pmf ! lo), fst (pmf ! hi))"
    and sel: "(lo, hi) \<in> set (nonzero_gt cs p)"
    and least: "\<And>i j. (i, j) \<in> set (nonzero_gt cs p) \<Longrightarrow> int hi - int lo \<le> int j - int i"
    and first: "\<And>i j. (i, j) \<in> set (nonzero_gt cs p) \<Longrightarrow>
        int j - int i = int hi - int lo \<Longrightarrow> lo \<le> i"
    unfolding cs_def[symmetric] by blast
  have lohi: "lo < hi" by (rule fwd[OF sel])
  have "hi - lo \<le> j - i \<and> (j - i = hi - lo \<longrightarrow> lo \<le> i)"
    if "i \<le> j \<and> j < length pmf \<and> np_gt (total_p cs i j) p" for i j
  proof -
    from that have m: "(i, j) \<in> set (nonzero_gt cs p)" by (simp add: mem)
    from least[OF m] lohi that have "hi - lo \<le> j - i" by linarith
    moreover have "lo \<le> i" if "j - i = hi - lo"
      using first[OF m] that lohi \<open>i \<le> j \<and> _\<close> by (simp add: of_nat_diff)
    ultimately show ?thesis by blast
  qed
  moreover from sel have "hi < length pmf" "np_gt (total_p cs lo hi) p"
    by (auto simp: set_nonzero_gt len)
  ultimately show ?thesis using res lohi unfolding cs_def by (intro exI[of _ lo] exI[of _ hi]) auto
qed

text \<open>
  Witness for C4: the PMF \<open>0.04, 0.56, 0.40\<close> on the grid \<open>0, 0.01, 0.02\<close> at \<open>p = 0.5\<close>,
  where the pair \<open>(0, 1)\<close> has span mass \<open>0.56\<close>.
\<close>

theorem hdi_narrowest_span_witness:
  "\<exists>lo hi. highest_density_interval
       [(0::real, Some (4/100::real)), (1/100, Some (56/100)), (2/100, Some (40/100))] (1/2)
       = Inr (fst ([(0::real, Some (4/100::real)), (1/100, Some (56/100)), (2/100, Some (40/100))] ! lo),
              fst ([(0::real, Some (4/100::real)), (1/100, Some (56/100)), (2/100, Some (40/100))] ! hi)) \<and>
      lo \<le> hi \<and>
      hi < length [(0::real, Some (4/100::real)), (1/100, Some (56/100)), (2/100, Some (40/100))] \<and>
      np_gt (total_p (np_cumsum (map snd
         [(0::real, Some (4/100::real)), (1/100, Some (56/100)), (2/100, Some (40/100))])) lo hi) (1/2) \<and>
      (\<forall>i j. i \<le> j \<and>
          j < length [(0::real, Some (4/100::real)), (1/100, Some (56/100)), (2/100, Some (40/100))] \<and>
          np_gt (total_p (np_cumsum (map snd
            [(0::real, Some (4/100::real)), (1/100, Some (56/100)), (2/100, Some (40/100))])) i j) (1/2) \<longrightarrow>
          hi - lo \<le> j - i \<and> (j - i = hi - lo \<longrightarrow> lo \<le> i))"
  by (rule hdi_narrowest_span[where ?i0.0 = 0 and ?j0.0 = 1
        and vs = "[4/100, 56/100, 40/100]"]) (simp_all add: hdi_eval)

text \<open>
  Claim C5 as stated: for a point mass, \<open>p = 0.5\<close> gives \<open>low = high =\<close> the grid value of the
  mass. Counterexample: with the mass at \<open>0.01\<close> on the grid \<open>0, 0.01, 0.02\<close> the cumulative
  sums are \<open>0, 1, 1\<close>; the only spans above \<open>0.5\<close> start at index 0, and the narrowest one
  is \<open>(0, 1)\<close>, so \<open>low = 0\<close> and \<open>high = 0.01\<close>.
\<close>

theorem hdi_point_mass_counterexample:
  "highest_density_interval [(0::real, Some 0), (1/100, Some 1), (2/100, Some 0)] (1/2)
     = Inr (0, 1/100) \<and>
   highest_density_interval [(0::real, Some 0), (1/100, Some 1), (2/100, Some 0)] (1/2)
     \<noteq> Inr (1/100, 1/100)"
  by (simp add: hdi_eval)

text \<open>
  Claim C5 as amended: for a point mass at a grid index \<open>k \<ge> 1\<close> and \<open>p = 0.5\<close> (any
  \<open>0 \<le> p < 1\<close>), the function returns \<open>low =\<close> the grid value at index \<open>k - 1\<close> and
  \<open>high =\<close> the grid value at index \<open>k\<close>, the narrowest span of which the difference of
  cumulative sums exceeds \<open>p\<close>.
\<close>

theorem hdi_point_mass:
  assumes k: "0 < k" "k < length grid" and p: "0 \<le> p" "p < 1"
  shows "highest_density_interval
           (zip grid (map (\<lambda>i. Some (if i = k then 1 else 0)) [0..<length grid])) p
         = Inr (grid ! (k - 1), grid ! k)"
proof -
  define n where "n = length grid"
  define vs :: "real list" where "vs = map (\<lambda>i. if i = k then 1 else 0) [0..<n]"
  define pmf where "pmf = zip grid (map (\<lambda>i. Some (if i = k then 1 else (0::real))) [0..<length grid])"
  define cs where "cs = np_cumsum (map snd pmf)"
  have snd_pmf: "map snd pmf = map Some vs"
    by (simp add: pmf_def vs_def n_def)
  have len: "length pmf = n" "length cs = n"
    by (simp_all add: pmf_def n_def cs_def length_np_cumsum)
  have lab: "fst (pmf ! i) = grid ! i" if "i < n" for i
    using that by (simp add: pmf_def n_def)
  have csn: "cs ! j = Some (if k \<le> j then 1 else 0)" if "j < n" for j
  proof -
    have "length vs = n" by (simp add: vs_def)
    with that have "cs ! j = Some (sum_list (take (Suc j) vs))"
      unfolding cs_def snd_pmf by (simp add: np_cumsum_Some)
    also have "sum_list (take (Suc j) vs) = (if k \<le> j then 1 else 0)"
      unfolding vs_def by (rule point_mass_prefix[OF that])
    finally show ?thesis .
  qed
  have qual: "(i, j) \<in> set (nonzero_gt cs p) \<longleftrightarrow> i < k \<and> k \<le> j \<and> j < n" for i j
    using p k(2)
    by (auto simp: set_nonzero_gt len total_p_def csn np_sub_def np_gt_def n_def
             split: if_splits)
  have "(k - 1, k) \<in> set (nonzero_gt cs p)" using k by (simp add: qual n_def)
  then have ne: "nonzero_gt cs p \<noteq> []" by auto
  from hdi_select[OF ne[unfolded cs_def]] obtain lo hi where
    res: "highest_density_interval pmf p = Inr (fst (pmf ! lo), fst (pmf ! hi))"
    and sel: "(lo, hi) \<in> set (nonzero_gt cs p)"
    and least: "\<And>i j. (i, j) \<in> set (nonzero_gt cs p) \<Longrightarrow> int hi - int lo \<le> int j - int i"
    unfolding cs_def[symmetric] by blast
  from sel have b: "lo < k" "k \<le> hi" "hi < n" by (simp_all add: qual)
  from least[OF \<open>(k - 1, k) \<in> set (nonzero_gt cs p)\<close>] k have "int hi - int lo \<le> 1" by simp
  with b have "lo = k - 1" "hi = k" by linarith+
  with res b k show ?thesis by (simp add: lab pmf_def n_def)
qed

text \<open>Witness for C5: the point mass at index 1 of the grid \<open>0, 0.01, 0.02\<close>.\<close>

theorem hdi_point_mass_witness:
  "highest_density_interval
     (zip [0::real, 1/100, 2/100]
        (map (\<lambda>i. Some (if i = 1 then 1 else 0)) [0..<length [0::real, 1/100, 2/100]])) (1/2)
   = Inr ([0::real, 1/100, 2/100] ! (1 - 1), [0::real, 1/100, 2/100] ! 1)"
  by (rule hdi_point_mass) simp_all

text \<open>
  Claim C6 as stated: the function fails whenever \<open>p\<close> is outside the open interval
  \<open>(0, 1)\<close>. Counterexample: on the PMF \<open>0.5, 0.5\<close> it returns a pair for \<open>p = 0\<close>, and
  for \<open>p = -1\<close> it returns the reversed pair \<open>(low, high) = (1, 0)\<close>.
\<close>

theorem hdi_invalid_coverage_counterexample:
  "highest_density_interval [(0::real, Some (1/2)), (1, Some (1/2))] 0 = Inr (0, 1) \<and>
   highest_density_interval [(0::real, Some (1/2)), (1, Some (1/2))] (- 1) = Inr (1, 0)"
  by (simp add: hdi_eval)

text \<open>
  Claim C6 as amended: the function does not inspect \<open>p\<close>. It fails exactly when no pair of
  indices \<open>(i, j)\<close> has \<open>cumsum[j] - cumsum[i] > p\<close>, and the error is then the
  \<^verbatim>\<open>ValueError\<close> that \<^verbatim>\<open>argmin\<close> raises on an empty array; in every other case it returns a
  pair.
\<close>

theorem hdi_fails_iff_no_span:
  "highest_density_interval pmf p = Inl e \<longleftrightarrow>
     e = ValueError \<and>
     \<not> (\<exists>i<length pmf. \<exists>j<length pmf. np_gt (total_p (np_cumsum (map snd pmf)) i j) p)"
proof -
  have "nonzero_gt (np_cumsum (map snd pmf)) p = [] \<longleftrightarrow>
      \<not> (\<exists>i<length pmf. \<exists>j<length pmf. np_gt (total_p (np_cumsum (map snd pmf)) i j) p)"
  proof
    assume "nonzero_gt (np_cumsum (map snd pmf)) p = []"
    then have "set (nonzero_gt (np_cumsum (map snd pmf)) p) = {}" by simp
    then show "\<not> (\<exists>i<length pmf. \<exists>j<length pmf. np_gt (total_p (np_cumsum (map snd pmf)) i j) p)"
      unfolding set_nonzero_gt length_np_cumsum by auto
  next
    assume "\<not> (\<exists>i<length pmf. \<exists>j<length pmf. np_gt (total_p (np_cumsum (map snd pmf)) i j) p)"
    then have "set (nonzero_gt (np_cumsum (map snd pmf)) p) = {}"
      unfolding set_nonzero_gt length_np_cumsum by auto
    then show "nonzero_gt (np_cumsum (map snd pmf)) p = []" by simp
  qed
  then show ?thesis by (auto simp: hdi_Inl)
qed

text \<open>Witness for C6: no span of the PMF \<open>0.5, 0.5\<close> has a mass above \<open>p = 1\<close>.\<close>

theorem hdi_fails_iff_no_span_witness:
  "highest_density_interval [(0::real, Some (1/2)), (1, Some (1/2))] 1 = Inl ValueError"
  by (subst hdi_fails_iff_no_span)
    (simp add: np_cumsum_def total_p_def np_add_def np_sub_def np_gt_def numeral_2_eq_2
       Ex_less_Suc)

text \<open>
  Claim C8. On an evenly spaced grid (label \<open>a + i * h\<close> at index \<open>i\<close>, with \<open>h \<ge> 0\<close>) and for
  coverage levels \<open>p1 \<le> p2\<close> at which the function succeeds, the interval returned at
  \<open>p2\<close> is at least as wide as the one returned at \<open>p1\<close>.
\<close>

theorem hdi_width_monotone:
  fixes pmf :: "(real \<times> npfloat) list"
  assumes grid: "\<forall>i<length pmf. fst (pmf ! i) = a + real i * h" and h: "0 \<le> h"
    and le: "p1 \<le> p2"
    and r1: "highest_density_interval pmf p1 = Inr (low1, high1)"
    and r2: "highest_density_interval pmf p2 = Inr (low2, high2)"
  shows "high1 - low1 \<le> high2 - low2"
proof -
  define cs where "cs = np_cumsum (map snd pmf)"
  have len: "length cs = length pmf" by (simp add: cs_def length_np_cumsum)
  have ne1: "nonzero_gt cs p1 \<noteq> []"
  proof
    assume "nonzero_gt cs p1 = []"
    then have "highest_density_interval pmf p1 = Inl ValueError"
      by (simp add: hdi_Inl cs_def)
    with r1 show False by simp
  qed
  have ne2: "nonzero_gt cs p2 \<noteq> []"
  proof
    assume "nonzero_gt cs p2 = []"
    then have "highest_density_interval pmf p2 = Inl ValueError"
      by (simp add: hdi_Inl cs_def)
    with r2 show False by simp
  qed
  from hdi_select[OF ne1[unfolded cs_def]] obtain lo1 hi1 where
    res1: "highest_density_interval pmf p1 = Inr (fst (pmf ! lo1), fst (pmf ! hi1))"
    and sel1: "(lo1, hi1) \<in> set (nonzero_gt cs p1)"
    and least1: "\<And>i j. (i, j) \<in> set (nonzero_gt cs p1) \<Longrightarrow> int hi1 - int lo1 \<le> int j - int i"
    unfolding cs_def[symmetric] by blast
  from hdi_select[OF ne2[unfolded cs_def]] obtain lo2 hi2 where
    res2: "highest_density_interval pmf p2 = Inr (fst (pmf ! lo2), fst (pmf ! hi2))"
    and sel2: "(lo2, hi2) \<in> set (nonzero_gt cs p2)"
    unfolding cs_def[symmetric] by blast
  have gt_mono: "np_gt x p1" if "np_gt x p2" for x
    using that le by (cases x) (simp_all add: np_gt_def)
  have "(lo2, hi2) \<in> set (nonzero_gt cs p1)"
    using sel2 gt_mono by (simp add: set_nonzero_gt)
  from least1[OF this] have w: "int hi1 - int lo1 \<le> int hi2 - int lo2" .
  from sel1 sel2 have bounds: "lo1 < length pmf" "hi1 < length pmf" "lo2 < length pmf" "hi2 < length pmf"
    by (simp_all add: set_nonzero_gt len)
  from r1 res1 have e1: "low1 = fst (pmf ! lo1)" "high1 = fst (pmf ! hi1)" by simp_all
  from r2 res2 have e2: "low2 = fst (pmf ! lo2)" "high2 = fst (pmf ! hi2)" by simp_all
  have lab: "fst (pmf ! i) = a + real i * h" if "i < length pmf" for i
    using grid that by blast
  have "high1 - low1 = real_of_int (int hi1 - int lo1) * h"
    unfolding e1 lab[OF bounds(1)] lab[OF bounds(2)] by (simp add: algebra_simps)
  moreover have "high2 - low2 = real_of_int (int hi2 - int lo2) * h"
    unfolding e2 lab[OF bounds(3)] lab[OF bounds(4)] by (simp add: algebra_simps)
  moreover have "real_of_int (int hi1 - int lo1) * h \<le> real_of_int (int hi2 - int lo2) * h"
  proof (rule mult_right_mono)
    show "real_of_int (int hi1 - int lo1) \<le> real_of_int (int hi2 - int lo2)"
      using w by (simp only: of_int_le_iff)
    show "0 \<le> h" by (rule h)
  qed
  ultimately show ?thesis by simp
qed

text \<open>
  Witness for C8: the PMF \<open>0.04, 0.56, 0.40\<close> on the grid \<open>0, 0.01, 0.02\<close> at \<open>p = 0.5\<close> and
  \<open>p = 0.9\<close>.
\<close>

theorem hdi_width_monotone_witness:
  "highest_density_interval
     [(0::real, Some (4/100)), (1/100, Some (56/100)), (2/100, Some (40/100))] (1/2)
     = Inr (0, 1/100) \<and>
   highest_density_interval
     [(0::real, Some (4/100)), (1/100, Some (56/100)), (2/100, Some (40/100))] (9/10)
     = Inr (0, 2/100) \<and>
   (1/100 - 0 \<le> 2/100 - (0::real))"
proof -
  define W where "W = [(0::real, Some (4/100 :: real)), (1/100, Some (56/100)), (2/100, Some (40/100))]"
  have r1: "highest_density_interval W (1/2) = Inr (0, 1/100)"
    by (simp add: W_def hdi_eval)
  have r2: "highest_density_interval W (9/10) = Inr (0, 2/100)"
    by (simp add: W_def hdi_eval)
  have g: "\<forall>i<length W. fst (W ! i) = 0 + real i * (1/100)"
    by (simp add: W_def less_Suc_eq numeral_3_eq_3 nth_Cons')
  have "(1/100 - 0 :: real) \<le> 2/100 - 0"
    by (rule hdi_width_monotone[OF g _ _ r1 r2]) simp_all
  with r1 r2 show ?thesis unfolding W_def by simp
qed

section \<open>Properties of get\_posteriors\<close>

subsection \<open>Sums and the process matrix\<close>

lemma np_sum_map_Some: "np_sum (map Some xs) = Some (sum_list xs)"
  by (induction xs) (simp_all add: np_add_def)

lemma np_sum_Some_upt: "np_sum (map (\<lambda>i. Some (f i)) [0..<n]) = Some (sum f {0..<n})"
proof -
  have "map (\<lambda>i. Some (f i)) [0..<n] = map Some (map f [0..<n])" by simp
  then show ?thesis
    by (simp only: np_sum_map_Some interv_sum_list_conv_sum_set_nat set_upt)
qed

lemma np_sum_None: "None \<in> set xs \<Longrightarrow> np_sum xs = None"
  by (induction xs) (auto simp: np_add_def split: option.splits)

lemma np_sum_Some_D: "np_sum xs = Some s \<Longrightarrow> xs = map Some (map the xs) \<and> s = sum_list (map the xs)"
proof (induction xs arbitrary: s)
  case Nil
  then show ?case by simp
next
  case (Cons x xs)
  from Cons.prems obtain a b where x: "x = Some a" and r: "np_sum xs = Some b" and s: "s = a + b"
    by (auto simp: np_add_def split: option.splits)
  from Cons.IH[OF r] x s show ?case by simp
qed

lemma map2_upt:
  "map2 g (map f1 [0..<n]) (map f2 [0..<n]) = map (\<lambda>i. g (f1 i) (f2 i)) [0..<n]"
  by (rule nth_equalityI) simp_all

lemma map_as_upt: "map f xs = map (\<lambda>i. f (xs ! i)) [0..<length xs]"
  by (rule nth_equalityI) simp_all

lemma norm_pdf_Some:
  "0 < sigma \<Longrightarrow>
     norm_pdf loc sigma x = Some (exp (- ((x - loc) / sigma)\<^sup>2 / 2) / (sigma * sqrt (2 * pi)))"
  by (simp add: norm_pdf_def)

lemma gauss_pos: "0 < sigma \<Longrightarrow> 0 < exp (- ((x - loc) / sigma)\<^sup>2 / 2) / (sigma * sqrt (2 * pi))"
  by simp

lemma norm_pdf_nonpos: "\<not> 0 < sigma \<Longrightarrow> norm_pdf loc sigma x = None"
  by (simp add: norm_pdf_def)

text \<open>The process matrix for a positive sigma: finite, non-negative, columns summing to 1.\<close>

lemma process_matrix_stochastic:
  assumes sigma: "0 < sigma"
  shows "\<exists>P. process_matrix grid sigma
            = map (\<lambda>i. map (\<lambda>j. Some (P i j)) [0..<length grid]) [0..<length grid] \<and>
          (\<forall>i j. 0 \<le> P i j) \<and>
          (\<forall>i j. j < length grid \<longrightarrow> 0 < P i j) \<and>
          (\<forall>j<length grid. sum (\<lambda>i. P i j) {0..<length grid} = 1)"
proof -
  define n where "n = length grid"
  define R where "R i j = exp (- ((grid ! i - grid ! j) / sigma)\<^sup>2 / 2) / (sigma * sqrt (2 * pi))" for i j
  define S where "S j = sum (\<lambda>i. R i j) {0..<n}" for j
  define P where "P i j = R i j / S j" for i j
  have Rpos: "0 < R i j" for i j unfolding R_def by (rule gauss_pos[OF sigma])
  have raw: "process_raw grid sigma = map (\<lambda>i. map (\<lambda>j. Some (R i j)) [0..<n]) [0..<n]"
    unfolding process_raw_def n_def R_def
    by (simp add: norm_pdf_Some[OF sigma] map_as_upt[of _ grid])
  have col: "column (process_raw grid sigma) j = map (\<lambda>i. Some (R i j)) [0..<n]" if "j < n" for j
    unfolding raw column_def using that by (simp add: comp_def)
  have tot: "sum_axis0 n (process_raw grid sigma) = map (\<lambda>j. Some (S j)) [0..<n]"
    unfolding sum_axis0_def by (rule nth_equalityI) (simp_all add: col np_sum_Some_upt S_def)
  have Spos: "0 < S j" if "j < n" for j
    unfolding S_def using that Rpos by (intro sum_pos) auto
  have row: "map2 np_div (map (\<lambda>j. Some (R i j)) [0..<n]) (map (\<lambda>j. Some (S j)) [0..<n])
      = map (\<lambda>j. Some (P i j)) [0..<n]" for i
  proof -
    have "S j \<noteq> 0" if "j < n" for j using Spos[OF that] by simp
    then show ?thesis unfolding map2_upt by (simp add: np_div_def P_def)
  qed
  have pm: "process_matrix grid sigma = map (\<lambda>i. map (\<lambda>j. Some (P i j)) [0..<n]) [0..<n]"
    unfolding process_matrix_def Let_def n_def[symmetric] tot
    unfolding raw by (simp add: comp_def row)
  have nonneg: "0 \<le> P i j" for i j
    unfolding P_def S_def using Rpos[of i j] by (intro divide_nonneg_nonneg sum_nonneg) (auto intro: less_imp_le Rpos)
  have colsum: "sum (\<lambda>i. P i j) {0..<n} = 1" if "j < n" for j
  proof -
    have "sum (\<lambda>i. P i j) {0..<n} = sum (\<lambda>i. R i j) {0..<n} / S j"
      unfolding P_def by (rule sum_divide_distrib[symmetric])
    then have "sum (\<lambda>i. P i j) {0..<n} = S j / S j"
      by (simp only: S_def)
    with Spos[OF that] show ?thesis by simp
  qed
  have pos: "0 < P i j" if "j < n" for i j
    unfolding P_def using Rpos[of i j] Spos[OF that] by simp
  from pm nonneg pos colsum show ?thesis unfolding n_def by blast
qed

lemma length_process_matrix: "length (process_matrix grid sigma) = length grid"
  by (simp add: process_matrix_def process_raw_def Let_def)

lemma column_Some_matrix:
  "j < n \<Longrightarrow> column (map (\<lambda>i. map (\<lambda>j. Some (P i j)) [0..<n]) [0..<m]) j = map (\<lambda>i. Some (P i j)) [0..<m]"
  by (simp add: column_def comp_def)

lemma matvec_Some:
  "matvec (map (\<lambda>i. map (\<lambda>j. Some (P i j)) [0..<n]) [0..<m]) (map Some w)
     = map (\<lambda>i. Some (sum (\<lambda>j. P i j * w ! j) {0..<n})) [0..<m]" if "length w = n"
proof -
  have w: "map Some w = map (\<lambda>j. Some (w ! j)) [0..<n]"
    using that by (simp add: map_as_upt[of Some w])
  have "np_sum (map2 np_mul (map (\<lambda>j. Some (P i j)) [0..<n]) (map Some w))
      = Some (sum (\<lambda>j. P i j * w ! j) {0..<n})" for i
    unfolding w map2_upt by (simp add: np_mul_def np_sum_Some_upt)
  then show ?thesis by (simp add: matvec_def comp_def)
qed

lemma is_pmf_iff:
  "is_pmf col \<longleftrightarrow> (\<exists>q. col = map Some q \<and> (\<forall>x\<in>set q. 0 \<le> x) \<and> sum_list q = 1)"
proof
  assume a: "is_pmf col"
  then have s: "np_sum col = Some 1" by (simp add: is_pmf_def)
  from np_sum_Some_D[OF s] have c: "col = map Some (map the col)" and t: "sum_list (map the col) = 1"
    by simp_all
  have "0 \<le> the x" if "x \<in> set col" for x
    using a that by (auto simp: is_pmf_def list_all_iff split: option.splits)
  then have "\<forall>x\<in>set (map the col). 0 \<le> x" by auto
  with c t show "\<exists>q. col = map Some q \<and> (\<forall>x\<in>set q. 0 \<le> x) \<and> sum_list q = 1" by blast
next
  assume "\<exists>q. col = map Some q \<and> (\<forall>x\<in>set q. 0 \<le> x) \<and> sum_list q = 1"
  then show "is_pmf col"
    by (auto simp: is_pmf_def list_all_iff np_sum_map_Some)
qed

lemma np_sum_replicate_None: "0 < n \<Longrightarrow> np_sum (replicate n None) = None"
  by (cases n) (simp_all add: np_add_def)

lemma map2_mul_None_right:
  "length row = n \<Longrightarrow> map2 np_mul row (replicate n None) = replicate n None"
  by (rule nth_equalityI) (simp_all add: np_mul_def split: option.splits)

lemma map2_mul_None_left:
  "length v = n \<Longrightarrow> map2 np_mul (replicate n None) v = replicate n None"
  by (rule nth_equalityI) (simp_all add: np_mul_def)

lemma matvec_None_in:
  assumes "None \<in> set v" and rows: "\<forall>row\<in>set m. length row = length v"
  shows "matvec m v = replicate (length m) None"
proof -
  from assms(1) obtain k where k: "k < length v" "v ! k = None"
    by (auto simp: in_set_conv_nth)
  have "np_sum (map2 np_mul row v) = None" if "row \<in> set m" for row
  proof -
    from rows that have "length row = length v" by blast
    with k have "map2 np_mul row v ! k = None" "k < length (map2 np_mul row v)"
      by (simp_all add: np_mul_def split: option.splits)
    then have "None \<in> set (map2 np_mul row v)" by (metis nth_mem)
    then show ?thesis by (rule np_sum_None)
  qed
  then show ?thesis unfolding matvec_def
    by (intro nth_equalityI) simp_all
qed

lemma rows_process_matrix:
  "\<forall>row\<in>set (process_matrix grid sigma). length row = length grid"
  by (auto simp: process_matrix_def process_raw_def sum_axis0_def Let_def)

text \<open>
  Claim C10. For a positive \<open>sigma\<close>, every column of the normalised process matrix sums
  to 1, and for every vector \<open>v\<close> over the grid the entries of the matrix-vector product
  sum to the same total as the entries of \<open>v\<close>: the predict step preserves the total mass
  and needs no renormalisation.
\<close>

theorem predict_preserves_mass:
  assumes sigma: "0 < sigma" and len: "length v = length grid"
  shows "(\<forall>j<length grid. np_sum (column (process_matrix grid sigma) j) = Some 1) \<and>
         np_sum (matvec (process_matrix grid sigma) v) = np_sum v"
proof -
  define n where "n = length grid"
  from process_matrix_stochastic[OF sigma, of grid] obtain P where
    pm: "process_matrix grid sigma = map (\<lambda>i. map (\<lambda>j. Some (P i j)) [0..<n]) [0..<n]"
    and colsum: "\<And>j. j < n \<Longrightarrow> sum (\<lambda>i. P i j) {0..<n} = 1"
    unfolding n_def by blast
  have cols: "np_sum (column (process_matrix grid sigma) j) = Some 1" if "j < n" for j
    unfolding pm column_Some_matrix[OF that] np_sum_Some_upt colsum[OF that] ..
  have mass: "np_sum (matvec (process_matrix grid sigma) v) = np_sum v"
  proof (cases "None \<in> set v")
    case True
    then have "v \<noteq> []" by auto
    with len have "0 < length (process_matrix grid sigma)"
      by (auto simp: length_process_matrix)
    moreover have "matvec (process_matrix grid sigma) v
        = replicate (length (process_matrix grid sigma)) None"
      using True rows_process_matrix[of grid sigma] len by (intro matvec_None_in) simp_all
    ultimately have "np_sum (matvec (process_matrix grid sigma) v) = None"
      by (simp add: np_sum_replicate_None)
    with True show ?thesis by (simp add: np_sum_None)
  next
    case False
    define w where "w = map the v"
    have v: "v = map Some w" unfolding w_def using False
      by (induction v) auto
    have lw: "length w = n" using len by (simp add: w_def n_def)
    have "np_sum (matvec (process_matrix grid sigma) v)
        = Some (\<Sum>i = 0..<n. \<Sum>j = 0..<n. P i j * w ! j)"
      unfolding pm v matvec_Some[OF lw] np_sum_Some_upt ..
    also have "(\<Sum>i = 0..<n. \<Sum>j = 0..<n. P i j * w ! j) = (\<Sum>j = 0..<n. \<Sum>i = 0..<n. P i j * w ! j)"
      by (rule sum.swap)
    also have "\<dots> = (\<Sum>j = 0..<n. w ! j)"
    proof (rule sum.cong)
      fix j assume "j \<in> {0..<n}"
      then have "j < n" by simp
      have "(\<Sum>i = 0..<n. P i j * w ! j) = (\<Sum>i = 0..<n. P i j) * w ! j"
        by (rule sum_distrib_right[symmetric])
      with colsum[OF \<open>j < n\<close>] show "(\<Sum>i = 0..<n. P i j * w ! j) = w ! j" by simp
    qed simp
    also have "\<dots> = sum_list w"
      using lw by (simp add: sum_list_sum_nth atLeast0LessThan)
    finally show ?thesis by (simp add: v np_sum_map_Some)
  qed
  from cols mass show ?thesis unfolding n_def by blast
qed

subsection \<open>The recursion\<close>

lemma length_bayes_step:
  "length lk = n \<Longrightarrow> length pm = n \<Longrightarrow> length (fst (bayes_step pm lk prev)) = n"
  by (simp add: bayes_step_def Let_def matvec_def)

lemma fst_bayes_loop_Cons:
  "fst (bayes_loop pm (lk # lks) prev ll)
     = fst (bayes_step pm lk prev)
       # fst (bayes_loop pm lks (fst (bayes_step pm lk prev))
                (np_add ll (np_log (snd (bayes_step pm lk prev)))))"
  by (simp add: Let_def case_prod_beta)

lemma snd_bayes_loop_Cons:
  "snd (bayes_loop pm (lk # lks) prev ll)
     = snd (bayes_loop pm lks (fst (bayes_step pm lk prev))
              (np_add ll (np_log (snd (bayes_step pm lk prev)))))"
  by (simp add: Let_def case_prod_beta)

lemma denominators_Cons:
  "denominators pm (lk # lks) prev
     = snd (bayes_step pm lk prev) # denominators pm lks (fst (bayes_step pm lk prev))"
  by (simp add: Let_def case_prod_beta)

lemma length_bayes_loop: "length (fst (bayes_loop pm lks prev ll)) = length lks"
  by (induction lks arbitrary: prev ll) (simp_all add: fst_bayes_loop_Cons del: bayes_loop.simps(2))

lemma length_denominators: "length (denominators pm lks prev) = length lks"
  by (induction lks arbitrary: prev) (simp_all add: denominators_Cons del: denominators.simps(2))

lemma length_likelihoods: "length (likelihoods rng grid sr) = length (tl sr)"
  by (simp add: likelihoods_def)

lemma likelihood_columns:
  "lk \<in> set (likelihoods rng grid sr) \<Longrightarrow> length lk = length grid"
  by (auto simp: likelihoods_def)

lemma poisson_pmf_nonneg: "poisson_pmf k mu = Some l \<Longrightarrow> 0 \<le> l"
  by (auto simp: poisson_pmf_def split: option.splits if_splits)

lemma likelihood_nonneg:
  "lk \<in> set (likelihoods rng grid sr) \<Longrightarrow> Some l \<in> set lk \<Longrightarrow> 0 \<le> l"
  by (auto simp: likelihoods_def dest: poisson_pmf_nonneg[OF sym])

lemma prior0_uniform:
  assumes "grid \<noteq> []"
  shows "prior0 grid = replicate (length grid) (Some (1 / real (length grid)))"
proof -
  define n where "n = length grid"
  have n: "real n \<noteq> 0" using assms by (simp add: n_def)
  have p0: "map (\<lambda>_. np_div (Some 1) (Some (real n))) grid = map Some (replicate n (1 / real n))"
    using n by (simp add: np_div_def map_replicate_const n_def)
  have s: "np_sum (map Some (replicate n (1 / real n))) = Some 1"
    unfolding np_sum_map_Some using n by (simp add: sum_list_replicate)
  show ?thesis
    unfolding prior0_def Let_def n_def[symmetric] p0 s
    by (simp add: np_div_def map_replicate_const)
qed

lemma is_pmf_prior0: "grid \<noteq> [] \<Longrightarrow> is_pmf (prior0 grid)"
proof -
  assume g: "grid \<noteq> []"
  have "prior0 grid = map Some (replicate (length grid) (1 / real (length grid)))"
    by (simp add: prior0_uniform[OF g])
  moreover have "sum_list (replicate (length grid) (1 / real (length grid))) = 1"
    using g by (simp add: sum_list_replicate)
  ultimately show ?thesis unfolding is_pmf_iff by (intro exI[of _ "replicate (length grid) (1 / real (length grid))"]) simp
qed

text \<open>One update keeps a PMF a PMF when the denominator is finite and not zero.\<close>

lemma bayes_step_pmf:
  assumes pm: "pm = map (\<lambda>i. map (\<lambda>j. Some (P i j)) [0..<n]) [0..<n]"
    and nonneg: "\<And>i j. 0 \<le> P i j"
    and prev: "prev = map Some q" "length q = n" "\<forall>x\<in>set q. 0 \<le> x"
    and lk: "length lk = n" "\<And>l. Some l \<in> set lk \<Longrightarrow> 0 \<le> l"
    and den: "snd (bayes_step pm lk prev) = Some d" "d \<noteq> 0"
  shows "is_pmf (fst (bayes_step pm lk prev)) \<and> length (fst (bayes_step pm lk prev)) = n"
proof -
  define c where "c i = sum (\<lambda>j. P i j * q ! j) {0..<n}" for i
  have cp: "matvec pm prev = map (\<lambda>i. Some (c i)) [0..<n]"
    unfolding pm prev(1) matvec_Some[OF prev(2)] c_def ..
  have c0: "0 \<le> c i" for i
    unfolding c_def using nonneg prev by (intro sum_nonneg mult_nonneg_nonneg) auto
  define numerator where "numerator = map2 np_mul lk (matvec pm prev)"
  have len: "length numerator = n" by (simp add: numerator_def cp lk(1))
  have numn: "numerator ! i = np_mul (lk ! i) (Some (c i))" if "i < n" for i
    using that by (simp add: numerator_def cp lk(1))
  have dsum: "np_sum numerator = Some d"
    using den(1) by (simp add: bayes_step_def Let_def numerator_def)
  define nu where "nu = map the numerator"
  from np_sum_Some_D[OF dsum] have num: "numerator = map Some nu" and d: "d = sum_list nu"
    by (simp_all add: nu_def)
  have nu0: "0 \<le> x" if "x \<in> set nu" for x
  proof -
    from that obtain i where i: "i < n" "x = nu ! i"
      using len by (auto simp: in_set_conv_nth nu_def)
    then have "numerator ! i = Some x" using num len by (metis length_map nth_map)
    with numn[OF i(1)] obtain l where l: "lk ! i = Some l" "x = l * c i"
      by (auto simp: np_mul_def split: option.splits)
    from l(1) i(1) lk(1) have "Some l \<in> set lk" by (metis nth_mem)
    from lk(2)[OF this] c0[of i] l(2) show ?thesis by simp
  qed
  then have "0 \<le> d" unfolding d by (intro sum_list_nonneg) auto
  with den(2) have dpos: "0 < d" by simp
  have post: "fst (bayes_step pm lk prev) = map Some (map (\<lambda>x. x / d) nu)"
    using den(2) dsum unfolding bayes_step_def Let_def numerator_def[symmetric]
    by (simp add: num np_div_def comp_def)
  have "sum_list (map (\<lambda>x. x / d) nu) = sum_list nu / d"
    by (induction nu) (simp_all add: add_divide_distrib)
  with d dpos have one: "sum_list (map (\<lambda>x. x / d) nu) = 1" by simp
  have "\<forall>x\<in>set (map (\<lambda>x. x / d) nu). 0 \<le> x" using nu0 dpos by auto
  with one post have "is_pmf (fst (bayes_step pm lk prev))" unfolding is_pmf_iff by blast
  moreover have "length (fst (bayes_step pm lk prev)) = n"
    using len num by (simp add: post)
  ultimately show ?thesis ..
qed

lemma bayes_loop_pmf:
  assumes pm: "pm = map (\<lambda>i. map (\<lambda>j. Some (P i j)) [0..<n]) [0..<n]"
    and nonneg: "\<And>i j. 0 \<le> P i j"
  shows "is_pmf prev \<Longrightarrow> length prev = n \<Longrightarrow>
         \<forall>lk\<in>set lks. length lk = n \<and> (\<forall>l. Some l \<in> set lk \<longrightarrow> 0 \<le> l) \<Longrightarrow>
         \<forall>d\<in>set (denominators pm lks prev). \<exists>x. d = Some x \<and> x \<noteq> 0 \<Longrightarrow>
         \<forall>col\<in>set (fst (bayes_loop pm lks prev ll)). is_pmf col"
proof (induction lks arbitrary: prev ll)
  case Nil
  then show ?case by simp
next
  case (Cons lk lks)
  define post where "post = fst (bayes_step pm lk prev)"
  define den where "den = snd (bayes_step pm lk prev)"
  from Cons.prems(4) obtain d where d: "den = Some d" "d \<noteq> 0"
    by (auto simp: denominators_Cons den_def simp del: denominators.simps(2))
  from Cons.prems(1) obtain q where q: "prev = map Some q" "\<forall>x\<in>set q. 0 \<le> x"
    unfolding is_pmf_iff by blast
  with Cons.prems(2) have lq: "length q = n" by simp
  have "is_pmf (fst (bayes_step pm lk prev)) \<and> length (fst (bayes_step pm lk prev)) = n"
    using Cons.prems(3) d
    by (intro bayes_step_pmf[OF pm nonneg q(1) lq q(2)]) (auto simp: den_def)
  then have post: "is_pmf post" "length post = n" by (simp_all add: post_def)
  have "\<forall>col\<in>set (fst (bayes_loop pm lks post (np_add ll (np_log den)))). is_pmf col"
    using Cons.prems(3,4)
    by (intro Cons.IH[OF post])
       (auto simp: denominators_Cons post_def simp del: denominators.simps(2))
  with post(1) show ?case
    by (simp add: fst_bayes_loop_Cons post_def den_def del: bayes_loop.simps(2))
qed

text \<open>A process matrix that is not finite gives a denominator that is not finite.\<close>

lemma process_matrix_nonpos:
  assumes "\<not> 0 < sigma"
  shows "process_matrix grid sigma = replicate (length grid) (replicate (length grid) None)"
proof -
  define n where "n = length grid"
  have raw: "process_raw grid sigma = replicate n (replicate n None)"
    unfolding process_raw_def using assms by (simp add: norm_pdf_def map_replicate_const n_def)
  have "map2 np_div (replicate n None) tot = replicate n None" if "length tot = n" for tot
    using that by (intro nth_equalityI) (simp_all add: np_div_def)
  moreover have "length (sum_axis0 n (process_raw grid sigma)) = n" by (simp add: sum_axis0_def)
  ultimately show ?thesis
    unfolding process_matrix_def Let_def n_def[symmetric] raw by (simp add: map_replicate_const)
qed

lemma bayes_step_nonfinite_matrix:
  assumes "0 < n" "length lk = n" "length prev = n"
  shows "snd (bayes_step (replicate n (replicate n None)) lk prev) = None"
proof -
  have "map2 np_mul (replicate n None) prev = replicate n None"
    using assms(3) by (rule map2_mul_None_left)
  then have "matvec (replicate n (replicate n None)) prev = replicate n None"
    using assms(1) by (simp add: matvec_def np_sum_replicate_None map_replicate_const)
  then show ?thesis
    using assms(1,2) by (simp add: bayes_step_def Let_def map2_mul_None_right np_sum_replicate_None)
qed

lemma get_posteriors_Inr:
  assumes "get_posteriors grid rng sr date sigma = Inr (table, ll)"
  shows "length (tl sr) = length (tl date)" "date \<noteq> []"
    "table = zip date (prior0 grid #
        fst (bayes_loop (process_matrix grid sigma) (likelihoods rng grid sr) (prior0 grid) (Some 0)))"
    "ll = snd (bayes_loop (process_matrix grid sigma) (likelihoods rng grid sr) (prior0 grid) (Some 0))"
  using assms by (auto simp: get_posteriors_def Let_def case_prod_beta split: if_splits)

lemma get_posteriors_shape:
  assumes "length (tl sr) = length (tl date)" "date \<noteq> []"
  shows "get_posteriors grid rng sr date sigma =
     Inr (zip date (prior0 grid #
        fst (bayes_loop (process_matrix grid sigma) (likelihoods rng grid sr) (prior0 grid) (Some 0))),
        snd (bayes_loop (process_matrix grid sigma) (likelihoods rng grid sr) (prior0 grid) (Some 0)))"
  using assms by (simp add: get_posteriors_def Let_def case_prod_beta)

lemma table_columns:
  assumes "length (tl sr) = length (tl date)" "date \<noteq> []"
  shows "length (prior0 grid #
        fst (bayes_loop (process_matrix grid sigma) (likelihoods rng grid sr) (prior0 grid) (Some 0)))
      = length date"
  using assms by (cases date) (simp_all add: length_bayes_loop length_likelihoods)

lemma length_prior0: "length (prior0 grid) = length grid"
  by (simp add: prior0_def Let_def)

text \<open>
  Claim C3 as amended: on every run that completes, with a non-empty grid and with every
  day's denominator finite and not zero, every column of the posterior table is a PMF
  (entries non-negative, sum exactly 1), the table has one column per date, and the first
  column is the uniform prior over the grid.
\<close>

theorem posteriors_are_pmfs:
  assumes run: "get_posteriors grid rng sr date sigma = Inr (table, ll)"
    and grid: "grid \<noteq> []"
    and dens: "\<forall>d\<in>set (run_denominators grid rng sr sigma). \<exists>x. d = Some x \<and> x \<noteq> 0"
  shows "(\<forall>col\<in>set (map snd table). is_pmf col) \<and> map fst table = date \<and>
         snd (table ! 0) = replicate (length grid) (Some (1 / real (length grid)))"
proof -
  define n where "n = length grid"
  define pm where "pm = process_matrix grid sigma"
  define lks where "lks = likelihoods rng grid sr"
  define later where "later = fst (bayes_loop pm lks (prior0 grid) (Some 0))"
  note r = get_posteriors_Inr[OF run]
  have table: "table = zip date (prior0 grid # later)"
    using r(3) by (simp add: later_def pm_def lks_def)
  have len: "length (prior0 grid # later) = length date"
    using table_columns[OF r(1,2)] by (simp add: later_def pm_def lks_def)
  have snds: "map snd table = prior0 grid # later" and fsts: "map fst table = date"
    unfolding table using len by simp_all
  have first: "snd (table ! 0) = prior0 grid"
    using r(2) unfolding table by (cases date) simp_all
  have lkprops: "\<forall>lk\<in>set lks. length lk = n \<and> (\<forall>l. Some l \<in> set lk \<longrightarrow> 0 \<le> l)"
    unfolding lks_def n_def using likelihood_columns likelihood_nonneg by blast
  have dens': "\<forall>d\<in>set (denominators pm lks (prior0 grid)). \<exists>x. d = Some x \<and> x \<noteq> 0"
    using dens by (simp add: run_denominators_def pm_def lks_def)
  have later_pmf: "\<forall>col\<in>set later. is_pmf col"
  proof (cases "0 < sigma")
    case True
    from process_matrix_stochastic[OF True, of grid] obtain P where
      P: "pm = map (\<lambda>i. map (\<lambda>j. Some (P i j)) [0..<n]) [0..<n]" and nn: "\<And>i j. 0 \<le> P i j"
      unfolding pm_def n_def by blast
    show ?thesis unfolding later_def
      by (rule bayes_loop_pmf[OF P nn is_pmf_prior0[OF grid] _ lkprops dens'])
         (simp add: length_prior0 n_def)
  next
    case False
    show ?thesis
    proof (cases lks)
      case Nil
      then show ?thesis by (simp add: later_def)
    next
      case (Cons lk rest)
      have pmN: "pm = replicate n (replicate n None)"
        unfolding pm_def n_def by (rule process_matrix_nonpos[OF False])
      have "0 < n" using grid by (simp add: n_def)
      moreover have "length lk = n" using lkprops Cons by simp
      ultimately have "snd (bayes_step pm lk (prior0 grid)) = None"
        unfolding pmN by (intro bayes_step_nonfinite_matrix) (simp_all add: length_prior0 n_def)
      moreover have "snd (bayes_step pm lk (prior0 grid)) \<in> set (denominators pm lks (prior0 grid))"
        unfolding Cons denominators_Cons by simp
      ultimately show ?thesis using dens' by force
    qed
  qed
  with is_pmf_prior0[OF grid] snds have "\<forall>col\<in>set (map snd table). is_pmf col" by simp
  with fsts first prior0_uniform[OF grid] show ?thesis by simp
qed

subsection \<open>Days with a degenerate denominator\<close>

lemma bayes_step_degenerate:
  assumes "snd (bayes_step pm lk prev) = None \<or> snd (bayes_step pm lk prev) = Some 0"
    and "length lk = n" "length pm = n"
  shows "fst (bayes_step pm lk prev) = replicate n None"
proof (rule nth_equalityI)
  show "length (fst (bayes_step pm lk prev)) = length (replicate n None)"
    using assms(2,3) by (simp add: length_bayes_step)
  fix i assume "i < length (fst (bayes_step pm lk prev))"
  then show "fst (bayes_step pm lk prev) ! i = replicate n None ! i"
    using assms by (auto simp: bayes_step_def Let_def np_div_def matvec_def split: option.splits)
qed

lemma bayes_step_from_nan:
  assumes "length pm = n" "\<forall>row\<in>set pm. length row = n" "length lk = n"
  shows "snd (bayes_step pm lk (replicate n None)) = None \<or>
         snd (bayes_step pm lk (replicate n None)) = Some 0"
proof (cases "0 < n")
  case True
  have "matvec pm (replicate n None) = replicate n None"
    unfolding matvec_def using assms(1,2) True
    by (intro nth_equalityI) (simp_all add: map2_mul_None_right np_sum_replicate_None)
  then show ?thesis using True assms(3)
    by (simp add: bayes_step_def Let_def map2_mul_None_right np_sum_replicate_None)
next
  case False
  then show ?thesis using assms by (simp add: bayes_step_def Let_def matvec_def)
qed

lemma snd_bayes_loop_None: "snd (bayes_loop pm lks prev None) = None"
  by (induction lks arbitrary: prev)
     (simp_all add: snd_bayes_loop_Cons np_add_def del: bayes_loop.simps(2))

lemma bayes_loop_from_nan:
  assumes "length pm = n" "\<forall>row\<in>set pm. length row = n"
  shows "\<forall>lk\<in>set lks. length lk = n \<Longrightarrow>
         \<forall>col\<in>set (fst (bayes_loop pm lks (replicate n None) ll)). col = replicate n None"
proof (induction lks arbitrary: ll)
  case Nil
  then show ?case by simp
next
  case (Cons lk lks)
  have lk: "length lk = n" using Cons.prems by simp
  have "fst (bayes_step pm lk (replicate n None)) = replicate n None"
    by (rule bayes_step_degenerate[OF bayes_step_from_nan[OF assms lk] lk assms(1)])
  with Cons show ?case by (simp add: fst_bayes_loop_Cons del: bayes_loop.simps(2))
qed

lemma bayes_loop_degenerate:
  assumes "length pm = n" "\<forall>row\<in>set pm. length row = n"
  shows "\<forall>lk\<in>set lks. length lk = n \<Longrightarrow> t < length lks \<Longrightarrow>
         denominators pm lks prev ! t = None \<or> denominators pm lks prev ! t = Some 0 \<Longrightarrow>
         (\<forall>s. t \<le> s \<and> s < length lks \<longrightarrow> fst (bayes_loop pm lks prev ll) ! s = replicate n None) \<and>
         snd (bayes_loop pm lks prev ll) = None"
proof (induction lks arbitrary: prev ll t)
  case Nil
  then show ?case by simp
next
  case (Cons lk lks)
  have lk: "length lk = n" and rest: "\<forall>lk\<in>set lks. length lk = n" using Cons.prems(1) by simp_all
  show ?case
  proof (cases t)
    case 0
    with Cons.prems(3) have deg: "snd (bayes_step pm lk prev) = None \<or> snd (bayes_step pm lk prev) = Some 0"
      by (simp add: denominators_Cons del: denominators.simps(2))
    have post: "fst (bayes_step pm lk prev) = replicate n None"
      by (rule bayes_step_degenerate[OF deg lk assms(1)])
    have logd: "np_add ll (np_log (snd (bayes_step pm lk prev))) = None"
      using deg by (auto simp: np_log_def np_add_def split: option.splits)
    have all: "\<forall>col\<in>set (fst (bayes_loop pm lks (replicate n None) None)). col = replicate n None"
      by (rule bayes_loop_from_nan[OF assms rest])
    have "fst (bayes_loop pm (lk # lks) prev ll) ! s = replicate n None" if "s < length (lk # lks)" for s
    proof (cases s)
      case 0
      then show ?thesis by (simp add: fst_bayes_loop_Cons post del: bayes_loop.simps(2))
    next
      case (Suc s')
      with that have "s' < length (fst (bayes_loop pm lks (replicate n None) None))"
        by (simp add: length_bayes_loop)
      with all have "fst (bayes_loop pm lks (replicate n None) None) ! s' = replicate n None"
        by (metis nth_mem)
      with Suc show ?thesis by (simp add: fst_bayes_loop_Cons post logd del: bayes_loop.simps(2))
    qed
    moreover have "snd (bayes_loop pm (lk # lks) prev ll) = None"
      by (simp add: snd_bayes_loop_Cons post logd snd_bayes_loop_None del: bayes_loop.simps(2))
    ultimately show ?thesis by blast
  next
    case (Suc t')
    with Cons.prems have t': "t' < length lks"
      and d': "denominators pm lks (fst (bayes_step pm lk prev)) ! t' = None \<or>
               denominators pm lks (fst (bayes_step pm lk prev)) ! t' = Some 0"
      by (simp_all add: denominators_Cons del: denominators.simps(2))
    note IH = Cons.IH[OF rest t' d', of "np_add ll (np_log (snd (bayes_step pm lk prev)))"]
    have "fst (bayes_loop pm (lk # lks) prev ll) ! s = replicate n None"
      if "t \<le> s \<and> s < length (lk # lks)" for s
    proof -
      from that Suc obtain s' where s': "s = Suc s'" "t' \<le> s'" "s' < length lks"
        by (cases s) auto
      with IH show ?thesis by (simp add: fst_bayes_loop_Cons del: bayes_loop.simps(2))
    qed
    moreover have "snd (bayes_loop pm (lk # lks) prev ll) = None"
      using IH by (simp add: snd_bayes_loop_Cons del: bayes_loop.simps(2))
    ultimately show ?thesis by blast
  qed
qed

text \<open>
  Claim C2 as amended: the function has no check of the denominator. On inputs of
  matching shapes, a day pair whose denominator is zero or not finite does not end the run:
  the function divides by that denominator and returns a table with one column per date, in
  which the column of that day and of every later day holds no finite value, together with
  a log-likelihood that is not finite.
\<close>

theorem degenerate_day_not_detected:
  assumes shape: "length (tl sr) = length (tl date)" "date \<noteq> []"
    and t: "t < length (run_denominators grid rng sr sigma)"
    and deg: "run_denominators grid rng sr sigma ! t = None \<or>
              run_denominators grid rng sr sigma ! t = Some 0"
  shows "\<exists>table. get_posteriors grid rng sr date sigma = Inr (table, None) \<and>
           map fst table = date \<and>
           (\<forall>s. t < s \<and> s < length date \<longrightarrow> snd (table ! s) = replicate (length grid) None)"
proof -
  define n where "n = length grid"
  define pm where "pm = process_matrix grid sigma"
  define lks where "lks = likelihoods rng grid sr"
  define later where "later = fst (bayes_loop pm lks (prior0 grid) (Some 0))"
  define table where "table = zip date (prior0 grid # later)"
  have lpm: "length pm = n" "\<forall>row\<in>set pm. length row = n"
    unfolding pm_def n_def by (simp_all add: length_process_matrix rows_process_matrix)
  have lk: "\<forall>lk\<in>set lks. length lk = n"
    unfolding lks_def n_def using likelihood_columns by blast
  have t': "t < length lks" using t
    by (simp add: run_denominators_def length_denominators lks_def)
  have deg': "denominators pm lks (prior0 grid) ! t = None \<or> denominators pm lks (prior0 grid) ! t = Some 0"
    using deg by (simp add: run_denominators_def pm_def lks_def)
  from bayes_loop_degenerate[OF lpm lk t' deg', of "Some 0"]
  have cols: "\<And>s. t \<le> s \<Longrightarrow> s < length lks \<Longrightarrow> later ! s = replicate n None"
    and ll: "snd (bayes_loop pm lks (prior0 grid) (Some 0)) = None"
    by (simp_all add: later_def)
  have len: "length (prior0 grid # later) = length date"
    using table_columns[OF shape] by (simp add: later_def pm_def lks_def)
  have run: "get_posteriors grid rng sr date sigma = Inr (table, None)"
    unfolding get_posteriors_shape[OF shape] using ll
    by (simp add: table_def later_def pm_def lks_def)
  have fsts: "map fst table = date" unfolding table_def using len by simp
  have "snd (table ! s) = replicate (length grid) None" if "t < s \<and> s < length date" for s
  proof -
    from that obtain s' where s': "s = Suc s'" "t \<le> s'" by (cases s) auto
    from that len s' have b: "s' < length later" by simp
    then have "s' < length lks" by (simp add: later_def length_bayes_loop)
    from cols[OF s'(2) this] have "later ! s' = replicate n None" .
    moreover have "snd (table ! s) = (prior0 grid # later) ! s"
      unfolding table_def using that len by simp
    ultimately show ?thesis using s' by (simp add: n_def)
  qed
  with run fsts show ?thesis by blast
qed

text \<open>
  Claim C7 as amended: the likelihood of grid point \<open>i\<close> on day transition \<open>t\<close> is the Poisson
  probability mass at the next count \<open>sr[t + 1]\<close> with rate
  \<open>sr[t] * exp (gamma i * (r i - 1))\<close>, where \<open>gamma i = 1 / rng i\<close> is the reciprocal of
  the \<open>i\<close>-th sample of the one draw of the run (one sample per grid point, the same for
  every day).
\<close>

theorem likelihood_is_poisson_of_reciprocal_draw:
  assumes "i < length grid" and "Suc t < length sr" and "rng i \<noteq> 0"
    and "sr ! t = Some prev_count"
  shows "likelihoods rng grid sr ! t ! i
         = poisson_pmf (sr ! Suc t) (Some (prev_count * exp (1 / rng i * (grid ! i - 1))))"
proof -
  have t: "t < length (tl sr)" using assms(2) by simp
  have "tl sr ! t = sr ! Suc t" using assms(2) by (simp add: nth_tl)
  moreover have "butlast sr ! t = sr ! t" using assms(2) by (simp add: nth_butlast)
  ultimately show ?thesis
    using assms t
    by (simp add: likelihoods_def lam_def gamma_of_def np_div_def np_mul_def np_exp_def)
qed

text \<open>
  Claim C9 as amended: two runs on the same smoothed series, date index and \<open>sigma\<close> return
  the same posterior table and log-likelihood when they also use the same serial-interval
  sample for every grid point.
\<close>

theorem get_posteriors_same_draw:
  assumes "\<forall>i<length grid. rng1 i = rng2 i"
  shows "get_posteriors grid rng1 sr date sigma = get_posteriors grid rng2 sr date sigma"
proof -
  have "gamma_of rng1 grid = gamma_of rng2 grid"
    unfolding gamma_of_def using assms by simp
  then have "lam rng1 grid sr = lam rng2 grid sr"
    by (intro ext) (simp add: lam_def)
  then have "likelihoods rng1 grid sr = likelihoods rng2 grid sr"
    by (simp add: likelihoods_def)
  then show ?thesis by (simp add: get_posteriors_def)
qed

subsection \<open>Runs on a grid of two points\<close>

lemma bayes_step_finite:
  assumes pm: "pm = map (\<lambda>i. map (\<lambda>j. Some (P i j)) [0..<n]) [0..<n]"
    and q: "length q = n" and ls: "length ls = n"
  shows "bayes_step pm (map Some ls) (map Some q) =
     (map (\<lambda>i. np_div (Some (ls ! i * (\<Sum>j = 0..<n. P i j * q ! j)))
                  (Some (\<Sum>i = 0..<n. ls ! i * (\<Sum>j = 0..<n. P i j * q ! j)))) [0..<n],
      Some (\<Sum>i = 0..<n. ls ! i * (\<Sum>j = 0..<n. P i j * q ! j)))"
proof -
  have lsn: "map Some ls = map (\<lambda>i. Some (ls ! i)) [0..<n]"
    using ls by (simp add: map_as_upt[of Some ls])
  have num: "map2 np_mul (map Some ls) (matvec pm (map Some q))
      = map (\<lambda>i. Some (ls ! i * (\<Sum>j = 0..<n. P i j * q ! j))) [0..<n]"
    unfolding pm matvec_Some[OF q] lsn map2_upt by (simp add: np_mul_def)
  show ?thesis
    unfolding bayes_step_def Let_def num np_sum_Some_upt by (simp add: comp_def)
qed

lemma process_matrix_stochastic_n:
  assumes "0 < sigma" "length grid = n"
  shows "\<exists>P. process_matrix grid sigma = map (\<lambda>i. map (\<lambda>j. Some (P i j)) [0..<n]) [0..<n] \<and>
          (\<forall>i j. j < n \<longrightarrow> 0 < P i j)"
  using process_matrix_stochastic[OF assms(1), of grid] unfolding assms(2) by blast

lemma prior0_two: "prior0 [a, b] = map Some [1 / 2, 1 / 2]"
  by (simp add: prior0_uniform)

lemma likelihoods_zero_count:
  "likelihoods (\<lambda>_. 4) [0, 1] [Some 0, Some 5] = [map Some [0, 0]]"
  by (simp add: likelihoods_def lam_def gamma_of_def poisson_pmf_def np_mul_def np_div_def
      np_exp_def)

lemma likelihoods_draw:
  "d \<noteq> 0 \<Longrightarrow> likelihoods (\<lambda>_. d) [0, 1] [Some 1, Some 0]
     = [map Some [exp (- exp (- (1 / d))), exp (- 1)]]"
  by (simp add: likelihoods_def lam_def gamma_of_def poisson_pmf_def np_mul_def np_div_def
      np_exp_def)

lemma run_zero_count:
  "run_denominators [0, 1] (\<lambda>_. 4) [Some 0, Some 5] (3 / 20) = [Some 0] \<and>
   get_posteriors [0, 1] (\<lambda>_. 4) [Some 0, Some 5] [0 :: nat, 1] (3 / 20)
     = Inr ([(0, [Some (1 / 2), Some (1 / 2)]), (1, [None, None])], None)"
proof -
  have s: "(0::real) < 3 / 20" by simp
  have l: "length [0::real, 1] = 2" by simp
  from process_matrix_stochastic_n[OF s l] obtain P where
    pm: "process_matrix [0, 1] (3 / 20) = map (\<lambda>i. map (\<lambda>j. Some (P i j)) [0..<2]) [0..<2]"
    by blast
  have step: "bayes_step (process_matrix [0, 1] (3 / 20)) (map Some [0, 0]) (map Some [1 / 2, 1 / 2])
      = ([None, None], Some 0)"
    by (subst bayes_step_finite[OF pm]) (simp_all add: np_div_def upt_rec numeral_2_eq_2)
  have "run_denominators [0, 1] (\<lambda>_. 4) [Some 0, Some 5] (3 / 20) = [Some 0]"
    by (simp add: run_denominators_def likelihoods_zero_count prior0_two step del: list.map)
  moreover have "get_posteriors [0, 1] (\<lambda>_. 4) [Some 0, Some 5] [0 :: nat, 1] (3 / 20)
     = Inr ([(0, map Some [1 / 2, 1 / 2]), (1, [None, None])], None)"
    by (simp add: get_posteriors_def likelihoods_zero_count prior0_two step
        np_log_def np_add_def del: list.map)
  ultimately show ?thesis by simp
qed

lemma run_positive_count:
  assumes d: "d \<noteq> 0"
    and pm: "process_matrix [0, 1] (3 / 20) = map (\<lambda>i. map (\<lambda>j. Some (P i j)) [0..<2]) [0..<2]"
    and pos: "\<And>i j. j < 2 \<Longrightarrow> 0 < P i j"
  shows "bayes_step (process_matrix [0, 1] (3 / 20))
           (map Some [exp (- exp (- (1 / d))), exp (- 1)]) (map Some [1 / 2, 1 / 2])
         = ([Some (exp (- exp (- (1 / d))) * (P 0 0 / 2 + P 0 1 / 2)
                    / (exp (- exp (- (1 / d))) * (P 0 0 / 2 + P 0 1 / 2)
                       + exp (- 1) * (P 1 0 / 2 + P 1 1 / 2))),
             Some (exp (- 1) * (P 1 0 / 2 + P 1 1 / 2)
                    / (exp (- exp (- (1 / d))) * (P 0 0 / 2 + P 0 1 / 2)
                       + exp (- 1) * (P 1 0 / 2 + P 1 1 / 2)))],
            Some (exp (- exp (- (1 / d))) * (P 0 0 / 2 + P 0 1 / 2)
                   + exp (- 1) * (P 1 0 / 2 + P 1 1 / 2)))"
proof -
  have c0: "0 < P 0 0 / 2 + P 0 1 / 2" using pos[of 0 0] pos[of 1 0] by simp
  have c1: "0 < P 1 0 / 2 + P 1 1 / 2" using pos[of 0 1] pos[of 1 1] by simp
  have "0 < exp (- exp (- (1 / d))) * (P 0 0 / 2 + P 0 1 / 2)
          + exp (- 1) * (P 1 0 / 2 + P 1 1 / 2)"
  proof (rule add_pos_pos)
    show "0 < exp (- exp (- (1 / d))) * (P 0 0 / 2 + P 0 1 / 2)"
      by (rule mult_pos_pos[OF exp_gt_zero c0])
    show "0 < exp (- 1) * (P 1 0 / 2 + P 1 1 / 2)"
      by (rule mult_pos_pos[OF exp_gt_zero c1])
  qed
  then have nz: "exp (- exp (- (1 / d))) * (P 0 0 / 2 + P 0 1 / 2)
          + exp (- 1) * (P 1 0 / 2 + P 1 1 / 2) \<noteq> 0" by simp
  show ?thesis
    using nz by (subst bayes_step_finite[OF pm]) (simp_all add: np_div_def upt_rec numeral_2_eq_2)
qed

lemma two_point_matrix:
  "\<exists>P. process_matrix [0, 1] (3 / 20) = map (\<lambda>i. map (\<lambda>j. Some (P i j)) [0..<2]) [0..<2] \<and>
       (\<forall>i j. j < 2 \<longrightarrow> 0 < P i j)"
proof -
  have s: "(0::real) < 3 / 20" by simp
  have l: "length [0::real, 1] = 2" by simp
  show ?thesis by (rule process_matrix_stochastic_n[OF s l])
qed

lemma run_positive_denominators:
  assumes "d \<noteq> 0"
  shows "\<exists>x. run_denominators [0, 1] (\<lambda>_. d) [Some 1, Some 0] (3 / 20) = [Some x] \<and> 0 < x"
proof -
  from two_point_matrix obtain P where
    pm: "process_matrix [0, 1] (3 / 20) = map (\<lambda>i. map (\<lambda>j. Some (P i j)) [0..<2]) [0..<2]"
    and pos: "\<And>i j. j < 2 \<Longrightarrow> 0 < P i j" by blast
  have c0: "0 < P 0 0 / 2 + P 0 1 / 2" using pos[of 0 0] pos[of 1 0] by simp
  have c1: "0 < P 1 0 / 2 + P 1 1 / 2" using pos[of 0 1] pos[of 1 1] by simp
  have dpos: "0 < exp (- exp (- (1 / d))) * (P 0 0 / 2 + P 0 1 / 2)
          + exp (- 1) * (P 1 0 / 2 + P 1 1 / 2)"
  proof (rule add_pos_pos)
    show "0 < exp (- exp (- (1 / d))) * (P 0 0 / 2 + P 0 1 / 2)"
      by (rule mult_pos_pos[OF exp_gt_zero c0])
    show "0 < exp (- 1) * (P 1 0 / 2 + P 1 1 / 2)"
      by (rule mult_pos_pos[OF exp_gt_zero c1])
  qed
  have "run_denominators [0, 1] (\<lambda>_. d) [Some 1, Some 0] (3 / 20)
      = [Some (exp (- exp (- (1 / d))) * (P 0 0 / 2 + P 0 1 / 2)
              + exp (- 1) * (P 1 0 / 2 + P 1 1 / 2))]"
    by (simp add: run_denominators_def likelihoods_draw[OF assms] prior0_two
        run_positive_count[OF assms pm pos] del: list.map)
  with dpos show ?thesis by blast
qed

text \<open>
  Claim C2 as stated: a zero denominator ends the run with an error and no posterior is
  produced for that day. Counterexample: on the grid \<open>0, 1\<close> with the counts \<open>0, 5\<close> the
  rate is 0 and every likelihood is 0, so the denominator of the only day pair is 0; the
  run returns a table with a column for that day (all \<open>nan\<close>) and no error.
\<close>

theorem degenerate_day_counterexample:
  "run_denominators [0, 1] (\<lambda>_. 4) [Some 0, Some 5] (3 / 20) = [Some 0] \<and>
   get_posteriors [0, 1] (\<lambda>_. 4) [Some 0, Some 5] [0 :: nat, 1] (3 / 20)
     = Inr ([(0, [Some (1 / 2), Some (1 / 2)]), (1, [None, None])], None)"
  by (rule run_zero_count)

text \<open>
  Witness for C2: the same run, whose first denominator is 0.
\<close>

theorem degenerate_day_not_detected_witness:
  "\<exists>table. get_posteriors [0, 1] (\<lambda>_. 4) [Some 0, Some 5] [0 :: nat, 1] (3 / 20) = Inr (table, None) \<and>
     map fst table = [0, 1] \<and>
     (\<forall>s. 0 < s \<and> s < length [0 :: nat, 1] \<longrightarrow> snd (table ! s) = replicate (length [0 :: real, 1]) None)"
  by (rule degenerate_day_not_detected) (simp_all add: run_zero_count)

text \<open>
  Claim C3 as stated: every column of a table returned by a run that completes is a PMF.
  Counterexample: the run on the counts \<open>0, 5\<close> completes, and its second column holds two
  \<open>nan\<close> and is no PMF.
\<close>

theorem posteriors_not_pmf_counterexample:
  "get_posteriors [0, 1] (\<lambda>_. 4) [Some 0, Some 5] [0 :: nat, 1] (3 / 20)
     = Inr ([(0, [Some (1 / 2), Some (1 / 2)]), (1, [None, None])], None) \<and>
   \<not> is_pmf [None, None]"
  using run_zero_count by (simp add: is_pmf_def)

text \<open>
  Witness for C3: the run on the grid \<open>0, 1\<close> with the counts \<open>1, 0\<close>, whose denominator is
  positive.
\<close>

theorem posteriors_are_pmfs_witness:
  "case get_posteriors [0, 1] (\<lambda>_. 4) [Some 1, Some 0] [0 :: nat, 1] (3 / 20) of
     Inl e \<Rightarrow> False
   | Inr (table, ll) \<Rightarrow>
       list_all is_pmf (map snd table) \<and> map fst table = [0, 1] \<and>
       snd (table ! 0) = [Some (1 / 2), Some (1 / 2)]"
proof -
  obtain table ll where
    run: "get_posteriors [0, 1] (\<lambda>_. 4) [Some 1, Some 0] [0 :: nat, 1] (3 / 20) = Inr (table, ll)"
    by (simp add: get_posteriors_shape)
  have "(4::real) \<noteq> 0" by simp
  from run_positive_denominators[OF this]
  have dens: "\<forall>d\<in>set (run_denominators [0, 1] (\<lambda>_. 4) [Some 1, Some 0] (3 / 20)).
      \<exists>x. d = Some x \<and> x \<noteq> 0" by auto
  have g: "[0::real, 1] \<noteq> []" by simp
  from posteriors_are_pmfs[OF run g dens] run show ?thesis
    by (simp add: list_all_iff)
qed

text \<open>
  Claim C7 as stated: the rate is \<open>sr[t] * exp (gamma * (r - 1))\<close> with \<open>gamma\<close> the sample
  drawn from the normal distribution. Counterexample: with the sample 4, the grid value 0
  and the counts \<open>1, 0\<close> the likelihood is not the Poisson mass at the rate
  \<open>1 * exp (4 * (0 - 1))\<close>, since the code uses \<open>gamma = 1 / 4\<close>.
\<close>

theorem likelihood_draw_counterexample:
  "likelihoods (\<lambda>_. 4) [0, 1] [Some 1, Some 0] ! 0 ! 0
     \<noteq> poisson_pmf (Some 0) (Some (1 * exp (4 * (0 - 1))))"
  by (simp add: likelihoods_draw poisson_pmf_def)

text \<open>
  Witness for C7: the sample 4, the grid \<open>0, 1\<close> and the counts \<open>1, 0\<close>.
\<close>

theorem likelihood_is_poisson_of_reciprocal_draw_witness:
  "likelihoods (\<lambda>_. 4) [0, 1] [Some 1, Some 0] ! 0 ! 0
     = poisson_pmf ([Some 1, Some 0] ! Suc 0) (Some (1 * exp (1 / 4 * ([0, 1] ! 0 - 1))))"
  by (rule likelihood_is_poisson_of_reciprocal_draw) simp_all

text \<open>
  Witness for C9: two generators that agree on the two grid points and differ elsewhere.
\<close>

theorem get_posteriors_same_draw_witness:
  "get_posteriors [0, 1] (\<lambda>_. 4) [Some 1, Some 0] [0 :: nat, 1] (3 / 20)
     = get_posteriors [0, 1] (\<lambda>i. if i < 2 then 4 else 7) [Some 1, Some 0] [0 :: nat, 1] (3 / 20)"
  by (rule get_posteriors_same_draw) simp

text \<open>
  Witness for C10: the grid \<open>0, 1\<close>, \<open>sigma = 0.15\<close> and the vector \<open>0.25, 0.75\<close>.
\<close>

theorem predict_preserves_mass_witness:
  "np_sum (column (process_matrix [0, 1] (3 / 20)) 0) = Some 1 \<and>
   np_sum (column (process_matrix [0, 1] (3 / 20)) 1) = Some 1 \<and>
   np_sum (matvec (process_matrix [0, 1] (3 / 20)) [Some (1 / 4), Some (3 / 4)]) = Some 1"
proof -
  have s: "(0::real) < 3 / 20" by simp
  have l: "length [Some (1 / 4), Some (3 / 4 :: real)] = length [0::real, 1]" by simp
  from predict_preserves_mass[OF s l]
  have cols: "\<forall>j<length [0::real, 1]. np_sum (column (process_matrix [0, 1] (3 / 20)) j) = Some 1"
    and mass: "np_sum (matvec (process_matrix [0, 1] (3 / 20)) [Some (1 / 4), Some (3 / 4)])
      = np_sum [Some (1 / 4), Some (3 / 4)]" by blast+
  from cols have "np_sum (column (process_matrix [0, 1] (3 / 20)) 0) = Some 1"
    "np_sum (column (process_matrix [0, 1] (3 / 20)) 1) = Some 1" by simp_all
  with mass show ?thesis by (simp add: np_add_def)
qed

text \<open>
  Claim C9 as stated: two runs on identical series, date index and \<open>sigma\<close> produce
  identical tables. Counterexample: the samples 4 and 5 of the random draw give different
  posterior tables on the grid \<open>0, 1\<close> with the counts \<open>1, 0\<close>.
\<close>

theorem draw_changes_posteriors_counterexample:
  "\<exists>t1 l1 t2 l2.
     get_posteriors [0, 1] (\<lambda>_. 4) [Some 1, Some 0] [0 :: nat, 1] (3 / 20) = Inr (t1, l1) \<and>
     get_posteriors [0, 1] (\<lambda>_. 5) [Some 1, Some 0] [0 :: nat, 1] (3 / 20) = Inr (t2, l2) \<and>
     t1 \<noteq> t2"
proof -
  from two_point_matrix obtain P where
    pm: "process_matrix [0, 1] (3 / 20) = map (\<lambda>i. map (\<lambda>j. Some (P i j)) [0..<2]) [0..<2]"
    and pos: "\<And>i j. j < 2 \<Longrightarrow> 0 < P i j" by blast
  define c0 where "c0 = P 0 0 / 2 + P 0 1 / 2"
  define c1 where "c1 = P 1 0 / 2 + P 1 1 / 2"
  define D where "D d = exp (- exp (- (1 / d))) * c0 + exp (- 1) * c1" for d :: real
  have c0: "0 < c0" unfolding c0_def using pos[of 0 0] pos[of 1 0] by simp
  have c1: "0 < c1" unfolding c1_def using pos[of 0 1] pos[of 1 1] by simp
  have Dpos: "0 < D d" for d
    unfolding D_def
    by (rule add_pos_pos[OF mult_pos_pos[OF exp_gt_zero c0] mult_pos_pos[OF exp_gt_zero c1]])
  have step: "bayes_step (process_matrix [0, 1] (3 / 20))
           (map Some [exp (- exp (- (1 / d))), exp (- 1)]) (map Some [1 / 2, 1 / 2])
         = ([Some (exp (- exp (- (1 / d))) * c0 / D d), Some (exp (- 1) * c1 / D d)], Some (D d))"
    if "d \<noteq> 0" for d
    unfolding D_def c0_def c1_def by (rule run_positive_count[OF that pm pos])
  have run: "get_posteriors [0, 1] (\<lambda>_. d) [Some 1, Some 0] [0 :: nat, 1] (3 / 20)
      = Inr ([(0, map Some [1 / 2, 1 / 2]),
              (1, [Some (exp (- exp (- (1 / d))) * c0 / D d), Some (exp (- 1) * c1 / D d)])],
             Some (ln (D d)))"
    if "d \<noteq> 0" for d
    using Dpos[of d]
    by (simp add: get_posteriors_def likelihoods_draw[OF that] prior0_two step[OF that]
        np_log_def np_add_def del: list.map)
  have ne: "D 4 \<noteq> D 5"
  proof
    assume "D 4 = D 5"
    then have "exp (- exp (- (1 / 4 :: real))) * c0 = exp (- exp (- (1 / 5))) * c0"
      by (simp add: D_def)
    with c0 have "exp (- exp (- (1 / 4 :: real))) = exp (- exp (- (1 / 5)))" by simp
    then show False by simp
  qed
  have "exp (- 1) * c1 / D 4 \<noteq> exp (- 1) * c1 / D 5"
  proof
    assume "exp (- 1) * c1 / D 4 = exp (- 1) * c1 / D 5"
    moreover have "exp (- 1) * c1 \<noteq> 0" using c1 by simp
    moreover have "D 4 \<noteq> 0" "D 5 \<noteq> 0" using Dpos[of 4] Dpos[of 5] by simp_all
    ultimately have "D 4 = D 5" by (simp add: frac_eq_eq)
    with ne show False ..
  qed
  then have "[(0 :: nat, map Some [1 / 2, 1 / 2 :: real]),
              (1, [Some (exp (- exp (- (1 / 4))) * c0 / D 4), Some (exp (- 1) * c1 / D 4)])]
        \<noteq> [(0, map Some [1 / 2, 1 / 2]),
              (1, [Some (exp (- exp (- (1 / 5))) * c0 / D 5), Some (exp (- 1) * c1 / D 5)])]"
    by simp
  moreover have "(4::real) \<noteq> 0" "(5::real) \<noteq> 0" by simp_all
  ultimately show ?thesis using run[of 4] run[of 5] by blast
qed

end
